theory Spec2Isabelle
  imports Complex_Main "HOL-Library.Multiset" "HOL-Library.Product_Lexorder"
begin

section \<open>Data model (game\_engine.py)\<close>

text \<open>
  A state is the dictionary built by \<open>initial_state\<close>: the board (a list of rows, each a
  list of cells), the side length \<open>m\<close>, the win length \<open>k\<close> and the move counter. A cell is
  \<open>None\<close> or one of the strings 'X' and 'O' (\<open>PlayerX\<close> and \<open>PlayerO\<close>). Python integers are unbounded, hence \<open>int\<close>.
  A move is a pair of Python integers.
\<close>

datatype mark = PlayerX | PlayerO

type_synonym cell = "mark option"

type_synonym move = "int \<times> int"

record state =
  board :: "cell list list"
  m :: int
  k :: int
  moves :: int

text \<open>The exceptions the engine can raise: the explicit \<open>ValueError\<close> of \<open>result\<close> (the
  invalid-move error), the \<open>IndexError\<close> of a list subscript out of range, and the
  \<open>TypeError\<close> of comparing \<open>None\<close> with a number.\<close>

datatype error = ValueError | IndexError | TypeError

definition initial_state :: "int \<Rightarrow> int \<Rightarrow> state" where
  "initial_state m0 k0 =
     \<lparr>board = replicate (nat m0) (replicate (nat m0) None), m = m0, k = k0, moves = 0\<rparr>"

definition player :: "state \<Rightarrow> mark" where
  "player s = (if moves s mod 2 = 0 then PlayerX else PlayerO)"

definition actions :: "state \<Rightarrow> move list" where
  "actions s =
     [(int r, int c). r \<leftarrow> [0..<nat (m s)], c \<leftarrow> [0..<nat (m s)], board s ! r ! c = None]"

text \<open>Python list subscripts: an index in \<open>[-n, 0)\<close> counts from the end, an index outside
  \<open>[-n, n)\<close> raises \<open>IndexError\<close>.\<close>

definition py_index :: "nat \<Rightarrow> int \<Rightarrow> nat option" where
  "py_index n i =
     (if 0 \<le> i \<and> i < int n then Some (nat i)
      else if - int n \<le> i \<and> i < 0 then Some (nat (int n + i))
      else None)"

fun result :: "state \<Rightarrow> move \<Rightarrow> error + state" where
  "result s (r, c) =
     (case py_index (length (board s)) r of
        None \<Rightarrow> Inl IndexError
      | Some i \<Rightarrow>
          (case py_index (length (board s ! i)) c of
             None \<Rightarrow> Inl IndexError
           | Some j \<Rightarrow>
               if board s ! i ! j \<noteq> None then Inl ValueError
               else Inr (s\<lparr>board := (board s)[i := (board s ! i)[j := Some (player s)]],
                          moves := moves s + 1\<rparr>)))"

text \<open>The scan of \<open>_check_line\<close>: \<open>cnt\<close> (the source's \<open>count\<close>) and \<open>current\<close> are the loop variables.\<close>

fun check_line_loop :: "cell list \<Rightarrow> int \<Rightarrow> int \<Rightarrow> cell \<Rightarrow> cell" where
  "check_line_loop [] kk cnt current = None"
| "check_line_loop (cell # rest) kk cnt current =
     (if cell \<noteq> None \<and> cell = current then
        (if cnt + 1 \<ge> kk then current else check_line_loop rest kk (cnt + 1) current)
      else check_line_loop rest kk (if cell \<noteq> None then 1 else 0) cell)"

definition check_line :: "cell list \<Rightarrow> int \<Rightarrow> cell" where
  "check_line line kk =
     (if int (length line) < kk then None else check_line_loop line kk 0 None)"

text \<open>Each of the four loops of \<open>winner\<close> returns the first non-\<open>None\<close> answer of
  \<open>_check_line\<close> over its lines.\<close>

fun first_winner :: "cell list list \<Rightarrow> int \<Rightarrow> cell" where
  "first_winner [] kk = None"
| "first_winner (line # rest) kk =
     (case check_line line kk of Some w \<Rightarrow> Some w | None \<Rightarrow> first_winner rest kk)"

definition columns :: "state \<Rightarrow> cell list list" where
  "columns s = [[board s ! r ! c. r \<leftarrow> [0..<nat (m s)]]. c \<leftarrow> [0..<nat (m s)]]"

definition diagonals :: "state \<Rightarrow> cell list list" where
  "diagonals s =
     [[board s ! (start_r + i) ! (start_c + i).
         i \<leftarrow> [0..<nat (m s - int (max start_r start_c))]].
       start_r \<leftarrow> [0..<nat (m s - k s + 1)], start_c \<leftarrow> [0..<nat (m s - k s + 1)]]"

definition anti_diagonals :: "state \<Rightarrow> cell list list" where
  "anti_diagonals s =
     [[board s ! (start_r + i) ! nat (start_c - int i).
         i \<leftarrow> [0..<nat (min (m s - int start_r) (start_c + 1))]].
       start_r \<leftarrow> [0..<nat (m s - k s + 1)], start_c \<leftarrow> [k s - 1..m s - 1]]"

definition winner :: "state \<Rightarrow> cell" where
  "winner s =
     (case first_winner (board s) (k s) of Some w \<Rightarrow> Some w | None \<Rightarrow>
      (case first_winner (columns s) (k s) of Some w \<Rightarrow> Some w | None \<Rightarrow>
       (case first_winner (diagonals s) (k s) of Some w \<Rightarrow> Some w | None \<Rightarrow>
        first_winner (anti_diagonals s) (k s))))"

definition terminal :: "state \<Rightarrow> bool" where
  "terminal s = (winner s \<noteq> None \<or> moves s = (m s)\<^sup>2)"

definition utility :: "state \<Rightarrow> int option" where
  "utility s =
     (if \<not> terminal s then None
      else (case winner s of Some PlayerX \<Rightarrow> Some 1 | Some PlayerO \<Rightarrow> Some (- 1) | None \<Rightarrow> Some 0))"


section \<open>Heuristic evaluation (evaluation.py)\<close>

text \<open>A Python slice \<open>xs[i:j]\<close>: negative bounds count from the end, and both bounds are
  clamped to the list.\<close>

definition py_slice :: "'a list \<Rightarrow> int \<Rightarrow> int \<Rightarrow> 'a list" where
  "py_slice xs i j =
     (let n = int (length xs);
          lo = (if i < 0 then max (n + i) 0 else min i n);
          hi = (if j < 0 then max (n + j) 0 else min j n)
      in take (nat (hi - lo)) (drop (nat lo) xs))"

text \<open>
  The evaluator computes in floating point: its results are sums of squares of small
  integers and a bonus of one half, all of them represented exactly by a double, so the
  model computes in \<open>rat\<close>.
\<close>

definition count_sequences :: "cell list \<Rightarrow> int \<Rightarrow> int \<times> int" where
  "count_sequences line kk =
     fold (\<lambda>i (x_score, o_score).
             let window = py_slice line (int i) (int i + kk);
                 x_count = int (count_list window (Some PlayerX));
                 o_count = int (count_list window (Some PlayerO))
             in if x_count > 0 \<and> o_count = 0 then (x_score + x_count\<^sup>2, o_score)
                else if o_count > 0 \<and> x_count = 0 then (x_score, o_score + o_count\<^sup>2)
                else (x_score, o_score))
          [0..<nat (int (length line) - kk + 1)] (0, 0)"

text \<open>The loop shared by the four \<open>_evaluate_...\<close> functions: \<open>score += x_s - o_s\<close> for
  every line.\<close>

definition evaluate_lines :: "cell list list \<Rightarrow> int \<Rightarrow> rat" where
  "evaluate_lines lines kk =
     fold (\<lambda>line score. case count_sequences line kk of (x_s, o_s) \<Rightarrow> score + of_int (x_s - o_s))
          lines 0"

definition evaluate_rows :: "state \<Rightarrow> rat" where
  "evaluate_rows s = evaluate_lines (board s) (k s)"

definition evaluate_columns :: "state \<Rightarrow> rat" where
  "evaluate_columns s = evaluate_lines (columns s) (k s)"

definition evaluate_diagonals :: "state \<Rightarrow> rat" where
  "evaluate_diagonals s = evaluate_lines (diagonals s) (k s)"

definition evaluate_anti_diagonals :: "state \<Rightarrow> rat" where
  "evaluate_anti_diagonals s = evaluate_lines (anti_diagonals s) (k s)"

text \<open>\<open>_center_control_bonus\<close> reads \<open>board[center][center]\<close> with Python subscripts: a
  negative \<open>center\<close> counts from the end, and a subscript out of range raises
  \<open>IndexError\<close>.\<close>

definition center_control_bonus :: "state \<Rightarrow> error + rat" where
  "center_control_bonus s =
     (let center = m s div 2 in
      case py_index (length (board s)) center of
        None \<Rightarrow> Inl IndexError
      | Some i \<Rightarrow>
          (case py_index (length (board s ! i)) center of
             None \<Rightarrow> Inl IndexError
           | Some j \<Rightarrow>
               if board s ! i ! j = Some PlayerX then Inr (1 / 2)
               else if board s ! i ! j = Some PlayerO then Inr (- (1 / 2))
               else Inr 0))"

text \<open>The value of \<open>evaluate\<close>. Where the centre bonus raises, \<open>evaluate\<close> raises too and has
  no value: the model leaves it unspecified there (\<open>projr\<close> of an error), and every
  statement about \<open>evaluate\<close> on a non-terminal state is made where the bonus returns.\<close>

definition evaluate :: "state \<Rightarrow> rat" where
  "evaluate s =
     (if terminal s then (case utility s of Some u \<Rightarrow> of_int u | None \<Rightarrow> 0)
      else evaluate_rows s + evaluate_columns s + evaluate_diagonals s
           + evaluate_anti_diagonals s + projr (center_control_bonus s))"

section \<open>Search values\<close>

text \<open>The numbers the searches compare: Python integers and floats, with \<open>-math.inf\<close> and
  \<open>math.inf\<close>.\<close>

datatype val = MInf | Fin rat | PInf

instantiation val :: linorder
begin

fun less_eq_val :: "val \<Rightarrow> val \<Rightarrow> bool" where
  "less_eq_val MInf y = True"
| "less_eq_val (Fin a) MInf = False"
| "less_eq_val (Fin a) (Fin b) = (a \<le> b)"
| "less_eq_val (Fin a) PInf = True"
| "less_eq_val PInf MInf = False"
| "less_eq_val PInf (Fin b) = False"
| "less_eq_val PInf PInf = True"

definition less_val :: "val \<Rightarrow> val \<Rightarrow> bool" where
  "less_val x y = (x \<le> y \<and> \<not> y \<le> x)"

instance
proof
  fix x y z :: val
  show "(x < y) = (x \<le> y \<and> \<not> y \<le> x)" by (simp add: less_val_def)
  show "x \<le> x" by (cases x) simp_all
  show "x \<le> y \<Longrightarrow> y \<le> z \<Longrightarrow> x \<le> z" by (cases x; cases y; cases z) simp_all
  show "x \<le> y \<Longrightarrow> y \<le> x \<Longrightarrow> x = y" by (cases x; cases y) simp_all
  show "x \<le> y \<or> y \<le> x" by (cases x; cases y) auto
qed

end

section \<open>Move ordering (search.py)\<close>

type_synonym priority = "int \<times> rat \<times> int \<times> int"

text \<open>The key function \<open>move_priority\<close>; it raises what \<open>result\<close> raises.\<close>

fun move_priority :: "state \<Rightarrow> move \<Rightarrow> error + priority" where
  "move_priority s (r, c) =
     (case result s (r, c) of
        Inl e \<Rightarrow> Inl e
      | Inr new_state \<Rightarrow>
          if winner new_state = Some (player s) then Inr (0, 0, r, c)
          else
            let center = m s div 2;
                eval_score = (if player s = PlayerO then - evaluate new_state
                              else evaluate new_state);
                dist = \<bar>r - center\<bar> + \<bar>c - center\<bar>
            in Inr (1, - eval_score, dist, r))"

text \<open>\<open>sorted(moves, key=move_priority)\<close> computes the key of every move, from left to right,
  and then sorts stably by the keys alone.\<close>

fun priorities :: "state \<Rightarrow> move list \<Rightarrow> error + priority list" where
  "priorities s [] = Inr []"
| "priorities s (mv # rest) =
     (case move_priority s mv of
        Inl e \<Rightarrow> Inl e
      | Inr p \<Rightarrow> (case priorities s rest of Inl e \<Rightarrow> Inl e | Inr ps \<Rightarrow> Inr (p # ps)))"

definition order_moves :: "state \<Rightarrow> move list \<Rightarrow> bool \<Rightarrow> error + move list" where
  "order_moves s mvs use_heuristic =
     (if \<not> use_heuristic then Inr (sort mvs)
      else (case priorities s mvs of
              Inl e \<Rightarrow> Inl e
            | Inr ps \<Rightarrow> Inr (map snd (sort_key fst (zip ps mvs)))))"


section \<open>The searches (search.py)\<close>

text \<open>Every recursive call of a search is on a state with one empty cell less: the
  number of empty cells of the board is the termination measure.\<close>

definition empties :: "state \<Rightarrow> nat" where
  "empties s = sum_list (map (\<lambda>row. count_list row None) (board s))"

lemma py_index_lt: "py_index n i = Some j \<Longrightarrow> j < n"
  by (auto simp: py_index_def split: if_splits)

lemma count_list_update_None:
  "j < length row \<Longrightarrow> row ! j = None \<Longrightarrow>
     count_list (row[j := Some p]) None < count_list row None"
proof (induction row arbitrary: j)
  case Nil
  then show ?case by simp
next
  case (Cons x xs)
  then show ?case by (cases j) auto
qed

lemma empties_update:
  "i < length xs \<Longrightarrow> j < length (xs ! i) \<Longrightarrow> xs ! i ! j = None \<Longrightarrow>
     sum_list (map (\<lambda>row. count_list row None) (xs[i := (xs ! i)[j := Some p]]))
       < sum_list (map (\<lambda>row. count_list row None) xs)"
proof (induction xs arbitrary: i)
  case Nil
  then show ?case by simp
next
  case (Cons x xs)
  then show ?case using count_list_update_None[of j x p] by (cases i) auto
qed

lemma result_Inr:
  assumes "result s (r, c) = Inr s'"
  obtains i j where "py_index (length (board s)) r = Some i"
    and "py_index (length (board s ! i)) c = Some j"
    and "board s ! i ! j = None"
    and "s' = s\<lparr>board := (board s)[i := (board s ! i)[j := Some (player s)]],
                  moves := moves s + 1\<rparr>"
  using assms by (auto split: option.splits if_splits)

lemma result_empties: "result s a = Inr s' \<Longrightarrow> empties s' < empties s"
proof -
  assume h: "result s a = Inr s'"
  obtain r c where a: "a = (r, c)" by (cases a)
  from h[unfolded a] show ?thesis
  proof (rule result_Inr)
    fix i j
    assume "py_index (length (board s)) r = Some i" "py_index (length (board s ! i)) c = Some j"
      and "board s ! i ! j = None"
      and "s' = s\<lparr>board := (board s)[i := (board s ! i)[j := Some (player s)]],
                    moves := moves s + 1\<rparr>"
    then show ?thesis
      using empties_update[of i "board s" j "player s"] by (auto simp: empties_def dest: py_index_lt)
  qed
qed

text \<open>
  Plain minimax. \<open>minimax_max\<close> and \<open>minimax_min\<close> are the two \<open>for action in legal_moves\<close>
  loops, with the loop variables \<open>best_value\<close> and \<open>best_move\<close> as arguments. On a
  terminal state \<open>utility\<close> is never \<open>None\<close>; were it \<open>None\<close>, the caller's comparison
  would raise \<open>TypeError\<close>.
\<close>

function minimax :: "state \<Rightarrow> error + (val \<times> move option)"
  and minimax_max ::
    "state \<Rightarrow> move list \<Rightarrow> val \<Rightarrow> move option \<Rightarrow> error + (val \<times> move option)"
  and minimax_min ::
    "state \<Rightarrow> move list \<Rightarrow> val \<Rightarrow> move option \<Rightarrow> error + (val \<times> move option)"
where
  "minimax s =
     (if terminal s then
        (case utility s of Some u \<Rightarrow> Inr (Fin (of_int u), None) | None \<Rightarrow> Inl TypeError)
      else if player s = PlayerX then minimax_max s (sort (actions s)) MInf None
      else minimax_min s (sort (actions s)) PInf None)"
| "minimax_max s [] best_value best_move = Inr (best_value, best_move)"
| "minimax_max s (action # rest) best_value best_move =
     (case result s action of
        Inl e \<Rightarrow> Inl e
      | Inr new_state \<Rightarrow>
          (case minimax new_state of
             Inl e \<Rightarrow> Inl e
           | Inr (v, u) \<Rightarrow>
               if v > best_value then minimax_max s rest v (Some action)
               else minimax_max s rest best_value best_move))"
| "minimax_min s [] best_value best_move = Inr (best_value, best_move)"
| "minimax_min s (action # rest) best_value best_move =
     (case result s action of
        Inl e \<Rightarrow> Inl e
      | Inr new_state \<Rightarrow>
          (case minimax new_state of
             Inl e \<Rightarrow> Inl e
           | Inr (v, u) \<Rightarrow>
               if v < best_value then minimax_min s rest v (Some action)
               else minimax_min s rest best_value best_move))"
  by pat_completeness auto
termination
  by (relation "measures [
        (\<lambda>x. case x of Inl s \<Rightarrow> empties s
                  | Inr (Inl (s, _)) \<Rightarrow> empties s | Inr (Inr (s, _)) \<Rightarrow> empties s),
        (\<lambda>x. case x of Inl _ \<Rightarrow> 1 | Inr _ \<Rightarrow> 0),
        (\<lambda>x. case x of Inl _ \<Rightarrow> 0
                  | Inr (Inl (_, ms, _)) \<Rightarrow> length ms | Inr (Inr (_, ms, _)) \<Rightarrow> length ms)]")
     (auto dest: result_empties)

text \<open>Alpha-beta minimax: the loops also carry \<open>alpha\<close> and \<open>beta\<close>, and \<open>break\<close> returns
  the running best.\<close>

function minimax_ab :: "state \<Rightarrow> val \<Rightarrow> val \<Rightarrow> bool \<Rightarrow> error + (val \<times> move option)"
  and minimax_ab_max ::
    "state \<Rightarrow> move list \<Rightarrow> val \<Rightarrow> move option \<Rightarrow> val \<Rightarrow> val \<Rightarrow> bool
      \<Rightarrow> error + (val \<times> move option)"
  and minimax_ab_min ::
    "state \<Rightarrow> move list \<Rightarrow> val \<Rightarrow> move option \<Rightarrow> val \<Rightarrow> val \<Rightarrow> bool
      \<Rightarrow> error + (val \<times> move option)"
where
  "minimax_ab s alpha beta use_ordering =
     (if terminal s then
        (case utility s of Some u \<Rightarrow> Inr (Fin (of_int u), None) | None \<Rightarrow> Inl TypeError)
      else
        (case (if use_ordering then order_moves s (actions s) True
               else Inr (sort (actions s))) of
           Inl e \<Rightarrow> Inl e
         | Inr legal_moves \<Rightarrow>
             if player s = PlayerX
             then minimax_ab_max s legal_moves MInf None alpha beta use_ordering
             else minimax_ab_min s legal_moves PInf None alpha beta use_ordering))"
| "minimax_ab_max s [] best_value best_move alpha beta use_ordering =
     Inr (best_value, best_move)"
| "minimax_ab_max s (action # rest) best_value best_move alpha beta use_ordering =
     (case result s action of
        Inl e \<Rightarrow> Inl e
      | Inr new_state \<Rightarrow>
          (case minimax_ab new_state alpha beta use_ordering of
             Inl e \<Rightarrow> Inl e
           | Inr (v, u) \<Rightarrow>
               let best_value' = (if v > best_value then v else best_value);
                   best_move' = (if v > best_value then Some action else best_move);
                   alpha' = max alpha best_value'
               in if beta \<le> alpha' then Inr (best_value', best_move')
                  else minimax_ab_max s rest best_value' best_move' alpha' beta use_ordering))"
| "minimax_ab_min s [] best_value best_move alpha beta use_ordering =
     Inr (best_value, best_move)"
| "minimax_ab_min s (action # rest) best_value best_move alpha beta use_ordering =
     (case result s action of
        Inl e \<Rightarrow> Inl e
      | Inr new_state \<Rightarrow>
          (case minimax_ab new_state alpha beta use_ordering of
             Inl e \<Rightarrow> Inl e
           | Inr (v, u) \<Rightarrow>
               let best_value' = (if v < best_value then v else best_value);
                   best_move' = (if v < best_value then Some action else best_move);
                   beta' = min beta best_value'
               in if beta' \<le> alpha then Inr (best_value', best_move')
                  else minimax_ab_min s rest best_value' best_move' alpha beta' use_ordering))"
  by pat_completeness auto
termination
  by (relation "measures [
        (\<lambda>x. case x of Inl (s, _) \<Rightarrow> empties s
                  | Inr (Inl (s, _)) \<Rightarrow> empties s | Inr (Inr (s, _)) \<Rightarrow> empties s),
        (\<lambda>x. case x of Inl _ \<Rightarrow> 1 | Inr _ \<Rightarrow> 0),
        (\<lambda>x. case x of Inl _ \<Rightarrow> 0
                  | Inr (Inl (_, ms, _)) \<Rightarrow> length ms | Inr (Inr (_, ms, _)) \<Rightarrow> length ms)]")
     (auto dest: result_empties)

text \<open>Depth-limited search. The evaluator is a parameter (\<open>evaluate\<close> by default) and
  returns a finite number; the depth is a Python integer, tested with \<open>depth == 0\<close>.\<close>

function search ::
    "state \<Rightarrow> int \<Rightarrow> (state \<Rightarrow> rat) \<Rightarrow> val \<Rightarrow> val \<Rightarrow> error + (val \<times> move option)"
  and search_max ::
    "state \<Rightarrow> move list \<Rightarrow> int \<Rightarrow> (state \<Rightarrow> rat) \<Rightarrow> val \<Rightarrow> move option \<Rightarrow> val \<Rightarrow> val
      \<Rightarrow> error + (val \<times> move option)"
  and search_min ::
    "state \<Rightarrow> move list \<Rightarrow> int \<Rightarrow> (state \<Rightarrow> rat) \<Rightarrow> val \<Rightarrow> move option \<Rightarrow> val \<Rightarrow> val
      \<Rightarrow> error + (val \<times> move option)"
where
  "search s depth eval_fn alpha beta =
     (if terminal s then
        (let u = utility s in
         if u = Some 1 then Inr (Fin 1000, None)
         else if u = Some (- 1) then Inr (Fin (- 1000), None)
         else Inr (Fin 0, None))
      else if depth = 0 then Inr (Fin (eval_fn s), None)
      else
        (case order_moves s (actions s) True of
           Inl e \<Rightarrow> Inl e
         | Inr legal_moves \<Rightarrow>
             if player s = PlayerX
             then search_max s legal_moves depth eval_fn MInf None alpha beta
             else search_min s legal_moves depth eval_fn PInf None alpha beta))"
| "search_max s [] depth eval_fn best_value best_move alpha beta = Inr (best_value, best_move)"
| "search_max s (action # rest) depth eval_fn best_value best_move alpha beta =
     (case result s action of
        Inl e \<Rightarrow> Inl e
      | Inr new_state \<Rightarrow>
          (case search new_state (depth - 1) eval_fn alpha beta of
             Inl e \<Rightarrow> Inl e
           | Inr (v, u) \<Rightarrow>
               let best_value' = (if v > best_value then v else best_value);
                   best_move' = (if v > best_value then Some action else best_move);
                   alpha' = max alpha best_value'
               in if beta \<le> alpha' then Inr (best_value', best_move')
                  else search_max s rest depth eval_fn best_value' best_move' alpha' beta))"
| "search_min s [] depth eval_fn best_value best_move alpha beta = Inr (best_value, best_move)"
| "search_min s (action # rest) depth eval_fn best_value best_move alpha beta =
     (case result s action of
        Inl e \<Rightarrow> Inl e
      | Inr new_state \<Rightarrow>
          (case search new_state (depth - 1) eval_fn alpha beta of
             Inl e \<Rightarrow> Inl e
           | Inr (v, u) \<Rightarrow>
               let best_value' = (if v < best_value then v else best_value);
                   best_move' = (if v < best_value then Some action else best_move);
                   beta' = min beta best_value'
               in if beta' \<le> alpha then Inr (best_value', best_move')
                  else search_min s rest depth eval_fn best_value' best_move' alpha beta'))"
  by pat_completeness auto
termination
  by (relation "measures [
        (\<lambda>x. case x of Inl (s, _) \<Rightarrow> empties s
                  | Inr (Inl (s, _)) \<Rightarrow> empties s | Inr (Inr (s, _)) \<Rightarrow> empties s),
        (\<lambda>x. case x of Inl _ \<Rightarrow> 1 | Inr _ \<Rightarrow> 0),
        (\<lambda>x. case x of Inl _ \<Rightarrow> 0
                  | Inr (Inl (_, ms, _)) \<Rightarrow> length ms | Inr (Inr (_, ms, _)) \<Rightarrow> length ms)]")
     (auto dest: result_empties)

declare minimax.simps(1) [simp del]
declare minimax_ab.simps(1) [simp del]
declare search.simps(1) [simp del]


section \<open>Positions used as concrete inputs\<close>

text \<open>The position of the first scenario of the tests: X owns the top row of a 3 by 3
  board after five moves.\<close>

definition x_row_win :: state where
  "x_row_win =
     \<lparr>board = [[Some PlayerX, Some PlayerX, Some PlayerX],
               [Some PlayerO, Some PlayerO, None],
               [None, None, None]], m = 3, k = 3, moves = 5\<rparr>"

section \<open>Applying a move\<close>

text \<open>
  \<open>result\<close> above is a function of the value of a state. The source works on objects: a
  state is a dictionary, its board a list of references to row lists, and \<open>result\<close>
  copies the state with \<open>copy.deepcopy\<close> and then assigns into the copy. Whether the input
  is left alone depends on what is copied and what is shared, so this section models the
  objects. A heap holds the dictionaries (each with the address of its board and the
  integers \<open>m\<close>, \<open>k\<close> and \<open>moves\<close>), the board lists (lists of addresses of rows) and the
  row lists (lists of cells); an address is an index, and a new object is appended.
  Integers, strings and \<open>None\<close> are immutable and are held by value.
\<close>

type_synonym addr = nat

record heap =
  dicts :: "(addr \<times> int \<times> int \<times> int) list"
  board_objs :: "addr list list"
  row_objs :: "cell list list"

text \<open>The value of the state at an address; a state whose references point to objects
  and whose rows are distinct objects (\<open>valid_state\<close>), as \<open>initial_state\<close> and \<open>result\<close>
  build them; and a heap in which every object of another heap is still at its address
  with its contents (\<open>extends\<close>).\<close>

definition state_of :: "heap \<Rightarrow> addr \<Rightarrow> state" where
  "state_of h p =
     (case dicts h ! p of
        (b, m0, k0, mv) \<Rightarrow>
          \<lparr>board = map (\<lambda>a. row_objs h ! a) (board_objs h ! b), m = m0, k = k0, moves = mv\<rparr>)"

definition valid_state :: "heap \<Rightarrow> addr \<Rightarrow> bool" where
  "valid_state h p =
     (p < length (dicts h)
      \<and> (case dicts h ! p of
            (b, m0, k0, mv) \<Rightarrow>
              b < length (board_objs h)
              \<and> list_all (\<lambda>a. a < length (row_objs h)) (board_objs h ! b)
              \<and> distinct (board_objs h ! b)))"

definition extends :: "heap \<Rightarrow> heap \<Rightarrow> bool" where
  "extends h h' =
     (take (length (dicts h)) (dicts h') = dicts h
      \<and> take (length (board_objs h)) (board_objs h') = board_objs h
      \<and> take (length (row_objs h)) (row_objs h') = row_objs h)"

text \<open>\<open>copy.deepcopy\<close> of a state: a new dictionary, a new board list, and one new list
  for every row object, found again through the memo when the board refers to it twice.\<close>

fun deepcopy_rows ::
    "cell list list \<Rightarrow> (addr \<times> addr) list \<Rightarrow> addr list \<Rightarrow> addr list \<times> cell list list" where
  "deepcopy_rows rs memo [] = ([], rs)"
| "deepcopy_rows rs memo (a # as) =
     (case map_of memo a of
        Some a' \<Rightarrow> (case deepcopy_rows rs memo as of (bs, rs') \<Rightarrow> (a' # bs, rs'))
      | None \<Rightarrow>
          (case deepcopy_rows (rs @ [rs ! a]) ((a, length rs) # memo) as of
             (bs, rs') \<Rightarrow> (length rs # bs, rs')))"

definition deepcopy :: "heap \<Rightarrow> addr \<Rightarrow> addr \<times> heap" where
  "deepcopy h p =
     (case dicts h ! p of
        (b, m0, k0, mv) \<Rightarrow>
          (case deepcopy_rows (row_objs h) [] (board_objs h ! b) of
             (new_rows, rs') \<Rightarrow>
               (length (dicts h),
                \<lparr>dicts = dicts h @ [(length (board_objs h), m0, k0, mv)],
                 board_objs = board_objs h @ [new_rows],
                 row_objs = rs'\<rparr>)))"

text \<open>\<open>result\<close> on objects: the subscript \<open>state['board'][r][c]\<close>, the deep copy, the
  assignment \<open>new_state['board'][r][c] = player(state)\<close> and \<open>new_state['moves'] += 1\<close>.
  It returns the address of the new state or the exception, and the heap.\<close>

definition get_cell :: "heap \<Rightarrow> addr \<Rightarrow> int \<Rightarrow> int \<Rightarrow> error + cell" where
  "get_cell h p r c =
     (case dicts h ! p of
        (b, m0, k0, mv) \<Rightarrow>
          (case py_index (length (board_objs h ! b)) r of
             None \<Rightarrow> Inl IndexError
           | Some i \<Rightarrow>
               (case py_index (length (row_objs h ! (board_objs h ! b ! i))) c of
                  None \<Rightarrow> Inl IndexError
                | Some j \<Rightarrow> Inr (row_objs h ! (board_objs h ! b ! i) ! j))))"

definition set_cell :: "heap \<Rightarrow> addr \<Rightarrow> int \<Rightarrow> int \<Rightarrow> cell \<Rightarrow> error + heap" where
  "set_cell h p r c v =
     (case dicts h ! p of
        (b, m0, k0, mv) \<Rightarrow>
          (case py_index (length (board_objs h ! b)) r of
             None \<Rightarrow> Inl IndexError
           | Some i \<Rightarrow>
               (case py_index (length (row_objs h ! (board_objs h ! b ! i))) c of
                  None \<Rightarrow> Inl IndexError
                | Some j \<Rightarrow>
                    Inr (h\<lparr>row_objs := (row_objs h)[board_objs h ! b ! i :=
                                          (row_objs h ! (board_objs h ! b ! i))[j := v]]\<rparr>))))"

definition player_h :: "heap \<Rightarrow> addr \<Rightarrow> mark" where
  "player_h h p =
     (case dicts h ! p of (b, m0, k0, mv) \<Rightarrow> if mv mod 2 = 0 then PlayerX else PlayerO)"

definition incr_moves :: "heap \<Rightarrow> addr \<Rightarrow> heap" where
  "incr_moves h p =
     (case dicts h ! p of
        (b, m0, k0, mv) \<Rightarrow> h\<lparr>dicts := (dicts h)[p := (b, m0, k0, mv + 1)]\<rparr>)"

definition result_h :: "heap \<Rightarrow> addr \<Rightarrow> move \<Rightarrow> (error + addr) \<times> heap" where
  "result_h h p action =
     (case action of
        (r, c) \<Rightarrow>
          (case get_cell h p r c of
             Inl e \<Rightarrow> (Inl e, h)
           | Inr cell \<Rightarrow>
               if cell \<noteq> None then (Inl ValueError, h)
               else
                 (case deepcopy h p of
                    (new_state, h1) \<Rightarrow>
                      (case set_cell h1 new_state r c (Some (player_h h1 p)) of
                         Inl e \<Rightarrow> (Inl e, h1)
                       | Inr h2 \<Rightarrow> (Inr new_state, incr_moves h2 new_state)))))"

text \<open>\<open>initial_state\<close> on objects: the comprehension builds one new list for every row.\<close>

definition initial_state_h :: "heap \<Rightarrow> int \<Rightarrow> int \<Rightarrow> addr \<times> heap" where
  "initial_state_h h m0 k0 =
     (length (dicts h),
      \<lparr>dicts = dicts h @ [(length (board_objs h), m0, k0, 0)],
       board_objs = board_objs h @ [[length (row_objs h)..<length (row_objs h) + nat m0]],
       row_objs = row_objs h @ replicate (nat m0) (replicate (nat m0) None)\<rparr>)"

text \<open>A state of the second heap that is a new object and whose board and rows are new
  objects; and the cell of the board that a move addresses, with Python subscripts.\<close>

definition fresh_state :: "heap \<Rightarrow> heap \<Rightarrow> addr \<Rightarrow> bool" where
  "fresh_state h h' p =
     (length (dicts h) \<le> p
      \<and> (case dicts h' ! p of
            (b, m0, k0, mv) \<Rightarrow>
              length (board_objs h) \<le> b
              \<and> list_all (\<lambda>a. length (row_objs h) \<le> a) (board_objs h' ! b)))"

definition addressed :: "state \<Rightarrow> move \<Rightarrow> (nat \<times> nat) option" where
  "addressed s action =
     (case py_index (length (board s)) (fst action) of
        None \<Rightarrow> None
      | Some i \<Rightarrow>
          (case py_index (length (board s ! i)) (snd action) of
             None \<Rightarrow> None
           | Some j \<Rightarrow> Some (i, j)))"

text \<open>The position \<open>x_row_win\<close> as objects, and a state whose two rows are one and the same
  list.\<close>

definition x_row_win_heap :: heap where
  "x_row_win_heap =
     \<lparr>dicts = [(0, 3, 3, 5)],
      board_objs = [[0, 1, 2]],
      row_objs = [[Some PlayerX, Some PlayerX, Some PlayerX],
                  [Some PlayerO, Some PlayerO, None],
                  [None, None, None]]\<rparr>"

definition shared_row_heap :: heap where
  "shared_row_heap =
     \<lparr>dicts = [(0, 2, 2, 0)], board_objs = [[0, 0]], row_objs = [[None, None]]\<rparr>"

lemma deepcopy_rows_distinct:
  assumes "distinct as" "set as \<inter> fst ` set memo = {}" "\<forall>a \<in> set as. a < length rs"
  shows "deepcopy_rows rs memo as
         = ([length rs..<length rs + length as], rs @ map (\<lambda>a. rs ! a) as)"
  using assms
proof (induction as arbitrary: rs memo)
  case Nil
  then show ?case by simp
next
  case (Cons a as)
  from Cons.prems have none: "map_of memo a = None"
    by (auto simp: map_of_eq_None_iff)
  have d: "distinct as" and i: "set as \<inter> fst ` set ((a, length rs) # memo) = {}"
    and l: "\<forall>b \<in> set as. b < length (rs @ [rs ! a])"
    using Cons.prems by auto
  have m: "map (\<lambda>b. (rs @ [rs ! a]) ! b) as = map (\<lambda>b. rs ! b) as"
    using Cons.prems(3) by (intro map_cong refl) (simp add: nth_append)
  have u: "length rs # [Suc (length rs)..<Suc (length rs + length as)]
           = [length rs..<Suc (length rs + length as)]"
    by (rule upt_conv_Cons[symmetric]) simp
  show ?case
    by (simp add: none Cons.IH[OF d i l] m u del: upt_Suc)
qed

lemma take_length_le:
  assumes "take (length xs) ys = xs"
  shows "length xs \<le> length ys"
proof (rule ccontr)
  assume n: "\<not> length xs \<le> length ys"
  then have "take (length xs) ys = ys" by simp
  with assms have "ys = xs" by simp
  with n show False by simp
qed

lemma extends_refl: "extends h h"
  by (simp add: extends_def)

lemma extends_trans: "extends h h1 \<Longrightarrow> extends h1 h2 \<Longrightarrow> extends h h2"
proof -
  have t: "take (length xs) zs = xs"
    if "take (length xs) ys = xs" "take (length ys) zs = ys" for xs ys zs :: "'a list"
  proof -
    from that(1) have "length xs \<le> length ys" by (rule take_length_le)
    then have "take (length xs) zs = take (length xs) (take (length ys) zs)" by (simp add: min_def)
    with that show ?thesis by simp
  qed
  assume "extends h h1" "extends h1 h2"
  then show ?thesis unfolding extends_def by (auto intro: t)
qed

lemma take_nth_eq: "take n ys = xs \<Longrightarrow> i < length xs \<Longrightarrow> ys ! i = xs ! i"
  by (metis length_take min_less_iff_conj nth_take)

lemma extends_state:
  assumes "extends h h'" "valid_state h p"
  shows "valid_state h' p" "state_of h' p = state_of h p"
proof -
  obtain b m0 k0 mv where d: "dicts h ! p = (b, m0, k0, mv)" by (cases "dicts h ! p")
  from assms(2) d have p: "p < length (dicts h)" and b: "b < length (board_objs h)"
    and r: "\<forall>a \<in> set (board_objs h ! b). a < length (row_objs h)"
    and di: "distinct (board_objs h ! b)"
    by (auto simp: valid_state_def list_all_iff)
  from assms(1) have e: "take (length (dicts h)) (dicts h') = dicts h"
    "take (length (board_objs h)) (board_objs h') = board_objs h"
    "take (length (row_objs h)) (row_objs h') = row_objs h"
    by (auto simp: extends_def)
  have d': "dicts h' ! p = (b, m0, k0, mv)" using take_nth_eq[OF e(1) p] d by simp
  have b': "board_objs h' ! b = board_objs h ! b" using take_nth_eq[OF e(2) b] .
  have r': "row_objs h' ! a = row_objs h ! a" if "a \<in> set (board_objs h ! b)" for a
    using take_nth_eq[OF e(3)] r that by blast
  from take_length_le[OF e(1)] take_length_le[OF e(2)] take_length_le[OF e(3)] p b r di
  show "valid_state h' p"
    by (auto simp: valid_state_def d' b' list_all_iff)
  have "map (\<lambda>a. row_objs h' ! a) (board_objs h ! b) = map (\<lambda>a. row_objs h ! a) (board_objs h ! b)"
    by (intro map_cong refl) (simp add: r')
  then show "state_of h' p = state_of h p"
    by (simp add: state_of_def d d' b')
qed

lemma get_cell_state:
  "get_cell h p r c
     = (case addressed (state_of h p) (r, c) of
          None \<Rightarrow> Inl IndexError
        | Some (i, j) \<Rightarrow> Inr (board (state_of h p) ! i ! j))"
proof -
  obtain b m0 k0 mv where d: "dicts h ! p = (b, m0, k0, mv)" by (cases "dicts h ! p")
  show ?thesis
    by (auto simp: get_cell_def addressed_def state_of_def d dest: py_index_lt
        split: option.splits)
qed

lemma result_addressed:
  "result s (r, c)
     = (case addressed s (r, c) of
          None \<Rightarrow> Inl IndexError
        | Some (i, j) \<Rightarrow>
            if board s ! i ! j \<noteq> None then Inl ValueError
            else Inr (s\<lparr>board := (board s)[i := (board s ! i)[j := Some (player s)]],
                       moves := moves s + 1\<rparr>))"
  by (simp add: result.simps addressed_def split: option.splits)

lemma result_h_error:
  assumes "addressed (state_of h p) (r, c) = None
           \<or> (\<exists>i j. addressed (state_of h p) (r, c) = Some (i, j)
                    \<and> board (state_of h p) ! i ! j \<noteq> None)"
  shows "result_h h p (r, c)
         = (if addressed (state_of h p) (r, c) = None then Inl IndexError else Inl ValueError, h)"
  using assms by (auto simp: result_h_def get_cell_state split: option.splits)

lemma result_h_success:
  assumes v: "valid_state h p"
    and a: "addressed (state_of h p) (r, c) = Some (i, j)"
    and e: "board (state_of h p) ! i ! j = None"
  shows "\<exists>h'. result_h h p (r, c) = (Inr (length (dicts h)), h')
            \<and> extends h h' \<and> valid_state h' (length (dicts h))
            \<and> fresh_state h h' (length (dicts h))
            \<and> state_of h' (length (dicts h))
                = (state_of h p)\<lparr>board := (board (state_of h p))
                                             [i := (board (state_of h p) ! i)[j := Some (player (state_of h p))]],
                                  moves := moves (state_of h p) + 1\<rparr>"
proof -
  obtain b m0 k0 mv where d: "dicts h ! p = (b, m0, k0, mv)" by (cases "dicts h ! p")
  let ?brd = "board_objs h ! b"
  let ?rs = "row_objs h"
  let ?L = "length ?rs"
  let ?n = "length ?brd"
  let ?p' = "length (dicts h)"
  let ?b' = "length (board_objs h)"
  from v d have p: "p < length (dicts h)" and b: "b < length (board_objs h)"
    and r: "\<forall>a \<in> set ?brd. a < ?L" and di: "distinct ?brd"
    by (auto simp: valid_state_def list_all_iff)
  have brd: "board (state_of h p) = map (\<lambda>a. ?rs ! a) ?brd"
    by (simp add: state_of_def d)
  from a have i: "py_index ?n r = Some i"
    and j: "py_index (length (?rs ! (?brd ! i))) c = Some j"
    by (auto simp: addressed_def brd split: option.splits dest: py_index_lt)
  from i have il: "i < ?n" by (rule py_index_lt)
  from j have jl: "j < length (?rs ! (?brd ! i))" by (rule py_index_lt)
  let ?rs1 = "?rs @ map (\<lambda>a. ?rs ! a) ?brd"
  let ?h1 = "\<lparr>dicts = dicts h @ [(?b', m0, k0, mv)],
              board_objs = board_objs h @ [[?L..<?L + ?n]],
              row_objs = ?rs1\<rparr>"
  have dc: "deepcopy h p = (?p', ?h1)"
    using deepcopy_rows_distinct[OF di _ r, of "[]"] by (simp add: deepcopy_def d)
  have new_row: "?rs1 ! (?L + i) = ?rs ! (?brd ! i)" using il by (simp add: nth_append)
  have pl: "player_h ?h1 p = player (state_of h p)"
    using p by (simp add: player_h_def player_def state_of_def d nth_append)
  let ?v = "Some (player (state_of h p))"
  let ?rs2 = "?rs1[?L + i := (?rs ! (?brd ! i))[j := ?v]]"
  let ?h2 = "?h1\<lparr>row_objs := ?rs2\<rparr>"
  have sc: "set_cell ?h1 ?p' r c (Some (player_h ?h1 p)) = Inr ?h2"
    using il by (simp add: set_cell_def i j new_row pl nth_append)
  let ?h3 = "\<lparr>dicts = dicts h @ [(?b', m0, k0, mv + 1)],
              board_objs = board_objs h @ [[?L..<?L + ?n]],
              row_objs = ?rs2\<rparr>"
  have g: "get_cell h p r c = Inr None" using a e by (simp add: get_cell_state)
  have res: "result_h h p (r, c) = (Inr ?p', ?h3)"
    by (simp add: result_h_def g dc sc incr_moves_def)
  have ext: "extends h ?h3" by (simp add: extends_def)
  have val: "valid_state ?h3 ?p'"
    by (simp add: valid_state_def list_all_iff)
  have "map (\<lambda>a. ?rs2 ! a) [?L..<?L + ?n]
        = (map (\<lambda>a. ?rs ! a) ?brd)[i := (?rs ! (?brd ! i))[j := ?v]]"
    using il by (intro nth_equalityI) (auto simp: nth_list_update nth_append)
  then have st: "state_of ?h3 ?p'
        = (state_of h p)\<lparr>board := (board (state_of h p))
                                    [i := (board (state_of h p) ! i)[j := ?v]],
                          moves := moves (state_of h p) + 1\<rparr>"
    using il by (simp add: state_of_def d)
  have fr: "fresh_state h ?h3 ?p'" by (simp add: fresh_state_def list_all_iff)
  from res ext val fr st show ?thesis by blast
qed

lemma initial_state_h_state:
  "initial_state_h h m0 k0 = (p, h') \<Longrightarrow>
     extends h h' \<and> valid_state h' p \<and> fresh_state h h' p
     \<and> state_of h' p = initial_state m0 k0"
  by (auto simp: initial_state_h_def extends_def valid_state_def fresh_state_def state_of_def
      initial_state_def list_all_iff nth_append intro!: nth_equalityI)

text \<open>On a board whose rows are one object the deep copy keeps the sharing, and the
  assignment changes a cell in every row.\<close>

lemma shared_rows_change_together:
  "\<not> valid_state shared_row_heap 0
   \<and> board (state_of shared_row_heap 0) = [[None, None], [None, None]]
   \<and> (\<exists>h'. result_h shared_row_heap 0 (0, 0) = (Inr 1, h')
          \<and> board (state_of h' 1) = [[Some PlayerX, None], [Some PlayerX, None]])"
  by (simp add: shared_row_heap_def valid_state_def state_of_def result_h_def get_cell_def
      set_cell_def deepcopy_def player_h_def incr_moves_def py_index_def)

text \<open>
  Claim C7, as stated, fails for a move that addresses no cell of the board: the cell is
  not occupied, and \<open>result\<close> returns no state, it raises \<open>IndexError\<close> from the
  subscript of its test.
\<close>

theorem result_out_of_range_raises_index_error:
  "valid_state x_row_win_heap 0 \<and> state_of x_row_win_heap 0 = x_row_win
   \<and> result_h x_row_win_heap 0 (3, 0) = (Inl IndexError, x_row_win_heap)
   \<and> result x_row_win (3, 0) = Inl IndexError"
  by (simp add: x_row_win_heap_def x_row_win_def valid_state_def state_of_def result_h_def
      get_cell_def py_index_def result.simps)

text \<open>
  Claim C7, amended. For every state whose references point to objects and whose rows
  are distinct objects, and every move \<open>(r, c)\<close>: \<open>result\<close> on objects computes \<open>result\<close> on
  values. It raises the invalid-move error (\<open>ValueError\<close>) if and only if the move
  addresses a cell, with Python subscripts, and that cell is occupied; it raises
  \<open>IndexError\<close> if and only if the move addresses no cell; when it raises, the heap is
  unchanged. When the move addresses an empty cell, it returns a new dictionary whose
  board and rows are new objects; every object that existed is unchanged, so the input
  state has the value it had; the new state is the input with the addressed cell set to
  the current player and the move count incremented, everything else equal. Applying the
  same move to the same parent again returns another new object with the same value as
  the first successor, and the parent still has its value.
\<close>

theorem result_spec:
  assumes "valid_state h p"
  shows "result (state_of h p) (r, c)
           = (case result_h h p (r, c) of
                (Inl e, h') \<Rightarrow> Inl e
              | (Inr p', h') \<Rightarrow> Inr (state_of h' p'))
         \<and> (fst (result_h h p (r, c)) = Inl ValueError \<longleftrightarrow>
              (\<exists>i j. addressed (state_of h p) (r, c) = Some (i, j)
                     \<and> board (state_of h p) ! i ! j \<noteq> None))
         \<and> (fst (result_h h p (r, c)) = Inl IndexError \<longleftrightarrow>
              addressed (state_of h p) (r, c) = None)
         \<and> ((\<exists>e. fst (result_h h p (r, c)) = Inl e) \<longrightarrow> snd (result_h h p (r, c)) = h)
         \<and> (\<forall>i j. addressed (state_of h p) (r, c) = Some (i, j)
                  \<and> board (state_of h p) ! i ! j = None \<longrightarrow>
              (\<exists>h'. result_h h p (r, c) = (Inr (length (dicts h)), h')
                    \<and> extends h h' \<and> fresh_state h h' (length (dicts h))
                    \<and> valid_state h' (length (dicts h))
                    \<and> state_of h' p = state_of h p
                    \<and> state_of h' (length (dicts h))
                        = (state_of h p)
                            \<lparr>board := (board (state_of h p))
                                        [i := (board (state_of h p) ! i)
                                                [j := Some (player (state_of h p))]],
                             moves := moves (state_of h p) + 1\<rparr>
                    \<and> (\<exists>p'' h''. result_h h' p (r, c) = (Inr p'', h'')
                           \<and> p'' \<noteq> length (dicts h)
                           \<and> state_of h'' p'' = state_of h'' (length (dicts h))
                           \<and> state_of h'' p = state_of h p)))"
proof -
  let ?s = "state_of h p"
  let ?new = "\<lambda>i j. ?s\<lparr>board := (board ?s)[i := (board ?s ! i)[j := Some (player ?s)]],
                        moves := moves ?s + 1\<rparr>"
  consider (none) "addressed ?s (r, c) = None"
    | (occupied) i j where "addressed ?s (r, c) = Some (i, j)" "board ?s ! i ! j \<noteq> None"
    | (empty) i j where "addressed ?s (r, c) = Some (i, j)" "board ?s ! i ! j = None"
  proof (cases "addressed ?s (r, c)")
    case None
    then show ?thesis by (rule none)
  next
    case (Some ij)
    obtain i j where ij: "ij = (i, j)" by (cases ij)
    show ?thesis
    proof (cases "board ?s ! i ! j = None")
      case True
      with Some ij show ?thesis by (intro empty) simp_all
    next
      case False
      with Some ij show ?thesis by (intro occupied) simp_all
    qed
  qed
  then show ?thesis
  proof cases
    case none
    then have "result_h h p (r, c) = (Inl IndexError, h)" using result_h_error[of h p r c] by simp
    with none show ?thesis by (simp add: result_addressed del: result.simps)
  next
    case occupied
    then have "result_h h p (r, c) = (Inl ValueError, h)" using result_h_error[of h p r c] by simp
    with occupied show ?thesis by (simp add: result_addressed del: result.simps)
  next
    case empty
    from result_h_success[OF assms empty] obtain h' where
      1: "result_h h p (r, c) = (Inr (length (dicts h)), h')" and e1: "extends h h'"
      and v1: "valid_state h' (length (dicts h))" and f1: "fresh_state h h' (length (dicts h))"
      and s1: "state_of h' (length (dicts h)) = ?new i j"
      by blast
    note o1 = extends_state[OF e1 assms]
    from empty o1(2) have a2: "addressed (state_of h' p) (r, c) = Some (i, j)"
      and b2: "board (state_of h' p) ! i ! j = None" by simp_all
    from result_h_success[OF o1(1) a2 b2] o1(2) obtain h'' where
      2: "result_h h' p (r, c) = (Inr (length (dicts h')), h'')" and e2: "extends h' h''"
      and s2: "state_of h'' (length (dicts h')) = ?new i j"
      by auto
    from e1 have "length (dicts h) \<le> length (dicts h')"
      by (auto simp: extends_def dest: take_length_le)
    moreover from v1 have "length (dicts h) < length (dicts h')" by (simp add: valid_state_def)
    ultimately have ne: "length (dicts h') \<noteq> length (dicts h)" by simp
    have k1: "state_of h'' (length (dicts h)) = ?new i j"
      using extends_state(2)[OF e2 v1] s1 by simp
    have k2: "state_of h'' p = ?s" using extends_state(2)[OF e2 o1(1)] o1(2) by simp
    have twice: "\<exists>p'' h''. result_h h' p (r, c) = (Inr p'', h'')
                           \<and> p'' \<noteq> length (dicts h)
                           \<and> state_of h'' p'' = state_of h'' (length (dicts h))
                           \<and> state_of h'' p = state_of h p"
      using 2 ne s2 k1 k2 by auto
    have r: "result ?s (r, c) = Inr (?new i j)" using empty by (simp add: result_addressed del: result.simps)
    have c5: "\<forall>i' j'. addressed ?s (r, c) = Some (i', j') \<and> board ?s ! i' ! j' = None \<longrightarrow>
              (\<exists>h'. result_h h p (r, c) = (Inr (length (dicts h)), h')
                    \<and> extends h h' \<and> fresh_state h h' (length (dicts h))
                    \<and> valid_state h' (length (dicts h))
                    \<and> state_of h' p = state_of h p
                    \<and> state_of h' (length (dicts h)) = ?new i' j'
                    \<and> (\<exists>p'' h''. result_h h' p (r, c) = (Inr p'', h'')
                           \<and> p'' \<noteq> length (dicts h)
                           \<and> state_of h'' p'' = state_of h'' (length (dicts h))
                           \<and> state_of h'' p = state_of h p))"
      using empty(1) 1 e1 f1 v1 o1(2) s1 twice by auto
    from empty 1 r s1 have c1: "result ?s (r, c)
           = (case result_h h p (r, c) of
                (Inl e, h') \<Rightarrow> Inl e
              | (Inr p', h') \<Rightarrow> Inr (state_of h' p'))" by simp
    from empty 1 have c234: "(fst (result_h h p (r, c)) = Inl ValueError \<longleftrightarrow>
              (\<exists>i j. addressed ?s (r, c) = Some (i, j) \<and> board ?s ! i ! j \<noteq> None))"
      "(fst (result_h h p (r, c)) = Inl IndexError \<longleftrightarrow> addressed ?s (r, c) = None)"
      "((\<exists>e. fst (result_h h p (r, c)) = Inl e) \<longrightarrow> snd (result_h h p (r, c)) = h)"
      by simp_all
    from c1 c234 c5 show ?thesis by blast
  qed
qed

theorem result_spec_witness:
  "valid_state x_row_win_heap 0 \<and> state_of x_row_win_heap 0 = x_row_win
   \<and> addressed x_row_win (1, 2) = Some (1, 2) \<and> board x_row_win ! 1 ! 2 = None
   \<and> (\<exists>h'. result_h x_row_win_heap 0 (1, 2) = (Inr 1, h')
          \<and> state_of h' 0 = x_row_win
          \<and> state_of h' 1
              = x_row_win\<lparr>board := [[Some PlayerX, Some PlayerX, Some PlayerX],
                                     [Some PlayerO, Some PlayerO, Some PlayerO],
                                     [None, None, None]], moves := 6\<rparr>
          \<and> (\<exists>p'' h''. result_h h' 0 (1, 2) = (Inr p'', h'') \<and> p'' \<noteq> 1
                 \<and> state_of h'' p'' = state_of h'' 1 \<and> state_of h'' 0 = x_row_win))
   \<and> addressed x_row_win (1, 1) = Some (1, 1) \<and> board x_row_win ! 1 ! 1 = Some PlayerO
   \<and> fst (result_h x_row_win_heap 0 (1, 1)) = Inl ValueError
   \<and> snd (result_h x_row_win_heap 0 (1, 1)) = x_row_win_heap"
proof -
  have v: "valid_state x_row_win_heap 0" and s: "state_of x_row_win_heap 0 = x_row_win"
    by (simp_all add: x_row_win_heap_def x_row_win_def valid_state_def state_of_def)
  have a: "addressed x_row_win (1, 2) = Some (1, 2)" "board x_row_win ! 1 ! 2 = None"
    "addressed x_row_win (1, 1) = Some (1, 1)" "board x_row_win ! 1 ! 1 = Some PlayerO"
    "player x_row_win = PlayerO" "moves x_row_win = 5" "length (dicts x_row_win_heap) = 1"
    "board x_row_win = [[Some PlayerX, Some PlayerX, Some PlayerX],
                        [Some PlayerO, Some PlayerO, None], [None, None, None]]"
    by (simp_all add: x_row_win_def x_row_win_heap_def addressed_def py_index_def player_def)
  from result_spec[OF v, of 1 2] result_spec[OF v, of 1 1] v s a show ?thesis
    by (simp add: s a) blast
qed


section \<open>Depth-limited search at its leaves\<close>

lemma utility_terminal:
  "terminal s \<Longrightarrow>
     utility s = Some (case winner s of Some PlayerX \<Rightarrow> 1 | Some PlayerO \<Rightarrow> - 1 | None \<Rightarrow> 0)"
  by (auto simp: utility_def split: option.splits mark.splits)

text \<open>
  Claim C5. On a terminal state, at every depth (depth 0 included) and for every
  evaluator and every bounds, depth-limited search returns 1000 when X has won, -1000
  when O has won and 0 for a draw, with no move. On a non-terminal state at depth 0 it
  returns the evaluator's score of that very state, with no move; the result depends on
  nothing else, so no successor is searched.
\<close>

theorem search_terminal_or_depth0:
  "(terminal s \<longrightarrow> search s depth eval_fn alpha beta =
       Inr (Fin (if winner s = Some PlayerX then 1000
                 else if winner s = Some PlayerO then - 1000 else 0), None))
   \<and> (\<not> terminal s \<longrightarrow> search s 0 eval_fn alpha beta = Inr (Fin (eval_fn s), None))"
  by (auto simp: search.simps(1) utility_terminal split: option.splits mark.splits)

theorem search_terminal_or_depth0_witness:
  "terminal x_row_win \<and> search x_row_win 2 evaluate MInf PInf = Inr (Fin 1000, None)
   \<and> \<not> terminal (initial_state 3 3)
   \<and> search (initial_state 3 3) 0 evaluate MInf PInf = Inr (Fin 0, None)"
proof -
  have t: "terminal x_row_win" by code_simp
  have w: "winner x_row_win = Some PlayerX" by code_simp
  have n: "\<not> terminal (initial_state 3 3)" by code_simp
  have e: "evaluate (initial_state 3 3) = 0" by code_simp
  show ?thesis
    using search_terminal_or_depth0[of x_row_win 2 evaluate MInf PInf]
      search_terminal_or_depth0[of "initial_state 3 3" 0 evaluate MInf PInf]
    by (simp add: t w n e)
qed


section \<open>Move ordering\<close>

lemma priorities_length: "priorities s mvs = Inr ps \<Longrightarrow> length ps = length mvs"
  by (induction mvs arbitrary: ps) (auto split: sum.splits)

lemma priorities_total:
  "(\<forall>mv \<in> set mvs. \<exists>s'. result s mv = Inr s') \<Longrightarrow> \<exists>ps. priorities s mvs = Inr ps"
proof (induction mvs)
  case Nil
  then show ?case by simp
next
  case (Cons mv mvs)
  obtain r c where mv: "mv = (r, c)" by (cases mv)
  from Cons.prems obtain s' where "result s (r, c) = Inr s'" by (auto simp: mv)
  then have "\<exists>p. move_priority s mv = Inr p" by (simp add: mv Let_def)
  moreover from Cons have "\<exists>ps. priorities s mvs = Inr ps" by simp
  ultimately show ?case by auto
qed

lemma order_moves_mset: "order_moves s mvs h = Inr out \<Longrightarrow> mset out = mset mvs"
proof (cases h)
  case False
  assume "order_moves s mvs h = Inr out"
  with False show ?thesis by (auto simp: order_moves_def)
next
  case True
  assume "order_moves s mvs h = Inr out"
  with True obtain ps where ps: "priorities s mvs = Inr ps"
    and out: "out = map snd (sort_key fst (zip ps mvs))"
    by (auto simp: order_moves_def split: sum.splits)
  have "mset out = image_mset snd (mset (zip ps mvs))"
    by (simp add: out)
  also have "\<dots> = mset (map snd (zip ps mvs))" by simp
  also have "\<dots> = mset mvs" using priorities_length[OF ps] by simp
  finally show ?thesis .
qed

lemma order_moves_total:
  "\<not> h \<or> (\<forall>mv \<in> set mvs. \<exists>s'. result s mv = Inr s') \<Longrightarrow> \<exists>out. order_moves s mvs h = Inr out"
  using priorities_total[of mvs s] by (auto simp: order_moves_def)

text \<open>
  Claim C10, as stated, fails: with the heuristic on, \<open>order_moves\<close> applies every move
  of the list with \<open>result\<close>, so a list holding a move to an occupied cell raises the
  invalid-move error instead of returning a permutation.
\<close>

theorem order_moves_illegal_move_raises:
  "order_moves x_row_win [(0, 0)] True = Inl ValueError"
  by code_simp

text \<open>
  Claim C10, amended. Whenever \<open>order_moves\<close> returns, for either value of
  \<open>use_heuristic\<close>, its output is a permutation of its input: same multiset of moves, same
  length. It returns for every list when \<open>use_heuristic\<close> is false, and for every list of
  moves that \<open>result\<close> accepts on the state (moves to empty cells) when it is true.
\<close>

theorem order_moves_permutation:
  "(order_moves s mvs use_heuristic = Inr out \<longrightarrow>
      mset out = mset mvs \<and> length out = length mvs)
   \<and> (\<not> use_heuristic \<or> (\<forall>mv \<in> set mvs. \<exists>s'. result s mv = Inr s') \<longrightarrow>
        (\<exists>out'. order_moves s mvs use_heuristic = Inr out'))"
proof (rule conjI; rule impI)
  assume "order_moves s mvs use_heuristic = Inr out"
  then have "mset out = mset mvs" by (rule order_moves_mset)
  then show "mset out = mset mvs \<and> length out = length mvs"
    using mset_eq_length by blast
next
  assume "\<not> use_heuristic \<or> (\<forall>mv \<in> set mvs. \<exists>s'. result s mv = Inr s')"
  then show "\<exists>out'. order_moves s mvs use_heuristic = Inr out'"
    by (rule order_moves_total)
qed

theorem order_moves_permutation_witness:
  "(\<exists>s'. result x_row_win (2, 2) = Inr s') \<and> (\<exists>s'. result x_row_win (1, 2) = Inr s')
   \<and> order_moves x_row_win [(2, 2), (1, 2)] True = Inr [(1, 2), (2, 2)]
   \<and> mset [(1, 2), (2, 2)] = mset [(2, 2), (1, 2) :: move]
   \<and> (\<exists>out'. order_moves x_row_win [(2, 2), (1, 2)] True = Inr out')"
proof -
  have e: "order_moves x_row_win [(2, 2), (1, 2)] True = Inr [(1, 2), (2, 2)]" by code_simp
  have l: "\<exists>s'. result x_row_win (2, 2) = Inr s'" "\<exists>s'. result x_row_win (1, 2) = Inr s'"
    by (simp_all add: x_row_win_def py_index_def)
  show ?thesis
    using order_moves_permutation[of x_row_win "[(2, 2), (1, 2)]" True "[(1, 2), (2, 2)]"] e l
    by simp
qed

text \<open>
  Claim C2 says that, below the winning moves, the heuristic order ranks by evaluation,
  then distance to the centre, then row, then column. The key that \<open>move_priority\<close>
  returns for such a move is \<open>(1, -eval_score, dist, r)\<close>: the column is missing (the key
  of a winning move, \<open>(0, 0, r, c)\<close>, has it, and the docstring promises a lexicographic
  last tie-break). Moves that agree on evaluation, distance and row therefore keep the
  order they have in the input. On the empty 3 by 3 board the corner moves \<open>(0, 2)\<close> and
  \<open>(0, 0)\<close> have the same key, and given in that order they are returned in that order,
  where the claim puts \<open>(0, 0)\<close> first.
\<close>

theorem order_moves_ties_keep_input_order:
  "order_moves (initial_state 3 3) [(0, 2), (0, 0)] True = Inr [(0, 2), (0, 0)]
   \<and> move_priority (initial_state 3 3) (0, 2) = Inr (1, - 3, 2, 0)
   \<and> move_priority (initial_state 3 3) (0, 0) = Inr (1, - 3, 2, 0)"
  by code_simp


section \<open>Well-formed states\<close>

text \<open>
  The board of a state is an \<open>m\<close> by \<open>m\<close> grid (\<open>well_shaped\<close>); on any other board the
  subscripts of \<open>actions\<close>, \<open>winner\<close> and \<open>evaluate\<close> raise \<open>IndexError\<close> in Python, which the
  definitions above do not model. A state is well formed (\<open>wf_state\<close>) when, in addition,
  its move count is the number of marks on the board, as the data model requires and as
  \<open>initial_state\<close> and \<open>result\<close> maintain.
\<close>

definition well_shaped :: "state \<Rightarrow> bool" where
  "well_shaped s =
     (length (board s) = nat (m s) \<and> (\<forall>row \<in> set (board s). length row = nat (m s)))"

definition marks :: "state \<Rightarrow> nat" where
  "marks s = sum_list (map (\<lambda>row. length (filter (\<lambda>c. c \<noteq> None) row)) (board s))"

definition wf_state :: "state \<Rightarrow> bool" where
  "wf_state s = (well_shaped s \<and> 0 \<le> m s \<and> moves s = int (marks s))"

lemma set_actions:
  "set (actions s) = {(int r, int c) | r c. r < nat (m s) \<and> c < nat (m s) \<and> board s ! r ! c = None}"
  by (auto simp: actions_def)

lemma py_index_nat: "i < n \<Longrightarrow> py_index n (int i) = Some i"
  by (simp add: py_index_def)

lemma actions_result:
  assumes "well_shaped s" "a \<in> set (actions s)"
  shows "\<exists>s'. result s a = Inr s'"
proof -
  from assms(2) obtain r c where a: "a = (int r, int c)" and r: "r < nat (m s)" and c: "c < nat (m s)"
    and e: "board s ! r ! c = None" by (auto simp: set_actions)
  from assms(1) r have lr: "r < length (board s)" by (simp add: well_shaped_def)
  with assms(1) c have lc: "c < length (board s ! r)" by (simp add: well_shaped_def)
  show ?thesis using lr lc e by (simp add: a py_index_nat)
qed

lemma result_well_shaped:
  assumes "well_shaped s" "result s a = Inr s'"
  shows "well_shaped s'"
proof -
  obtain r c where a: "a = (r, c)" by (cases a)
  from assms(2)[unfolded a] show ?thesis
  proof (rule result_Inr)
    fix i j
    assume i: "py_index (length (board s)) r = Some i"
      and s': "s' = s\<lparr>board := (board s)[i := (board s ! i)[j := Some (player s)]],
                    moves := moves s + 1\<rparr>"
    from i have il: "i < length (board s)" by (rule py_index_lt)
    then have "board s ! i \<in> set (board s)" by simp
    with assms(1) have "length ((board s ! i)[j := Some (player s)]) = nat (m s)"
      by (simp add: well_shaped_def)
    with assms(1) show ?thesis
      by (auto simp: well_shaped_def s' dest!: subsetD[OF set_update_subset_insert])
  qed
qed

lemma marks_update:
  "i < length xs \<Longrightarrow> j < length (xs ! i) \<Longrightarrow> xs ! i ! j = None \<Longrightarrow>
     sum_list (map (\<lambda>row. length (filter (\<lambda>c. c \<noteq> None) row)) (xs[i := (xs ! i)[j := Some (p :: mark)]]))
       = Suc (sum_list (map (\<lambda>row. length (filter (\<lambda>c. c \<noteq> None) row)) xs))"
proof (induction xs arbitrary: i)
  case Nil
  then show ?case by simp
next
  case (Cons x xs)
  have row: "length (filter (\<lambda>c. c \<noteq> None) (row[j := Some p]))
               = Suc (length (filter (\<lambda>c. c \<noteq> None) row))"
    if "j < length row" "row ! j = None" for row :: "cell list" and j
    using that
  proof (induction row arbitrary: j)
    case Nil
    then show ?case by simp
  next
    case (Cons y ys)
    then show ?case by (cases j) auto
  qed
  from Cons show ?case using row[of j x] by (cases i) auto
qed

lemma result_wf_state:
  assumes "wf_state s" "result s a = Inr s'"
  shows "wf_state s'"
proof -
  obtain r c where a: "a = (r, c)" by (cases a)
  have ws: "well_shaped s'" using assms result_well_shaped[of s a s'] by (auto simp: wf_state_def)
  from assms(2)[unfolded a] show ?thesis
  proof (rule result_Inr)
    fix i j
    assume i: "py_index (length (board s)) r = Some i"
      and j: "py_index (length (board s ! i)) c = Some j"
      and e: "board s ! i ! j = None"
      and s': "s' = s\<lparr>board := (board s)[i := (board s ! i)[j := Some (player s)]],
                    moves := moves s + 1\<rparr>"
    from i j have "i < length (board s)" "j < length (board s ! i)" by (auto dest: py_index_lt)
    then have "marks s' = Suc (marks s)"
      using marks_update[of i "board s" j "player s"] e by (simp add: marks_def s')
    with assms(1) ws show ?thesis by (simp add: wf_state_def s')
  qed
qed

lemma marks_empties:
  "well_shaped s \<Longrightarrow> marks s + empties s = nat (m s) * nat (m s)"
proof -
  assume ws: "well_shaped s"
  have row: "length (filter (\<lambda>c. c \<noteq> None) row) + count_list row None = length row"
    for row :: "cell list"
    by (induction row) auto
  have "sum_list (map (\<lambda>row. length (filter (\<lambda>c. c \<noteq> None) row)) xs)
          + sum_list (map (\<lambda>row. count_list row None) xs) = length xs * n"
    if "\<forall>row \<in> set xs. length row = n" for xs :: "cell list list" and n
    using that
  proof (induction xs)
    case Nil
    then show ?case by simp
  next
    case (Cons x xs)
    then show ?case using row[of x] by auto
  qed
  from this[of "board s" "nat (m s)"] ws show ?thesis
    by (simp add: marks_def empties_def well_shaped_def)
qed

lemma empties_pos_actions:
  assumes "well_shaped s" "0 < empties s"
  shows "actions s \<noteq> []"
proof -
  have "\<exists>x \<in> set xs. 0 < f x" if "0 < sum_list (map f xs)" for f :: "cell list \<Rightarrow> nat" and xs
    using that by (induction xs) auto
  from this[of "\<lambda>row. count_list row None" "board s"] assms(2)
  obtain row where row: "row \<in> set (board s)" and pos: "0 < count_list row None"
    by (auto simp: empties_def)
  from row obtain r where r: "r < length (board s)" and rr: "board s ! r = row"
    by (auto simp: in_set_conv_nth)
  from pos have "None \<in> set row" by (induction row) (auto split: if_splits)
  then obtain c where c: "c < length row" and cc: "row ! c = None"
    by (auto simp: in_set_conv_nth)
  from assms(1) r c rr row cc have "(int r, int c) \<in> set (actions s)"
    by (auto simp: set_actions well_shaped_def)
  then show ?thesis by auto
qed

lemma wf_nonterminal_actions:
  assumes "wf_state s" "\<not> terminal s"
  shows "actions s \<noteq> []"
proof -
  from assms have ne: "moves s \<noteq> (m s)\<^sup>2" by (simp add: terminal_def)
  from assms(1) have ws: "well_shaped s" and m0: "0 \<le> m s" and mv: "moves s = int (marks s)"
    by (auto simp: wf_state_def)
  have "int (marks s + empties s) = (m s)\<^sup>2"
    using marks_empties[OF ws] m0 by (simp add: power2_eq_square nat_mult_distrib)
  with ne mv have "0 < empties s" by (cases "empties s") auto
  with ws show ?thesis by (rule empties_pos_actions)
qed


section \<open>Plain minimax\<close>

declare result.simps [simp del]

text \<open>
  The loops of the searches, seen as functions of the values of the successors: \<open>child\<close>
  is the successor by a legal move, \<open>minimax_value\<close> the value that \<open>minimax\<close> returns, and
  \<open>best_max\<close> and \<open>best_min\<close> are the running best of the two loops over given values.
\<close>

definition child :: "state \<Rightarrow> move \<Rightarrow> state" where
  "child s a = (case result s a of Inr s' \<Rightarrow> s' | Inl e \<Rightarrow> s)"

definition minimax_value :: "state \<Rightarrow> val" where
  "minimax_value s = (case minimax s of Inr (v, u) \<Rightarrow> v | Inl e \<Rightarrow> MInf)"

fun best_max :: "('a \<Rightarrow> val) \<Rightarrow> 'a list \<Rightarrow> val \<Rightarrow> 'a option \<Rightarrow> val \<times> 'a option" where
  "best_max f [] best_value best_move = (best_value, best_move)"
| "best_max f (a # rest) best_value best_move =
     (if f a > best_value then best_max f rest (f a) (Some a)
      else best_max f rest best_value best_move)"

fun best_min :: "('a \<Rightarrow> val) \<Rightarrow> 'a list \<Rightarrow> val \<Rightarrow> 'a option \<Rightarrow> val \<times> 'a option" where
  "best_min f [] best_value best_move = (best_value, best_move)"
| "best_min f (a # rest) best_value best_move =
     (if f a < best_value then best_min f rest (f a) (Some a)
      else best_min f rest best_value best_move)"

lemma minimax_max_eq:
  assumes "\<forall>a \<in> set as. \<exists>s' v u. result s a = Inr s' \<and> minimax s' = Inr (v, u)"
  shows "minimax_max s as bv bm = Inr (best_max (\<lambda>a. minimax_value (child s a)) as bv bm)"
  using assms by (induction as arbitrary: bv bm) (auto simp: child_def minimax_value_def)

lemma minimax_min_eq:
  assumes "\<forall>a \<in> set as. \<exists>s' v u. result s a = Inr s' \<and> minimax s' = Inr (v, u)"
  shows "minimax_min s as bv bm = Inr (best_min (\<lambda>a. minimax_value (child s a)) as bv bm)"
  using assms by (induction as arbitrary: bv bm) (auto simp: child_def minimax_value_def)

lemma minimax_total: "well_shaped s \<Longrightarrow> \<exists>v u. minimax s = Inr (v, u)"
proof (induction "empties s" arbitrary: s rule: less_induct)
  case less
  have ch: "\<forall>a \<in> set (sort (actions s)). \<exists>s' v u. result s a = Inr s' \<and> minimax s' = Inr (v, u)"
  proof
    fix a assume "a \<in> set (sort (actions s))"
    then obtain s' where s': "result s a = Inr s'" using actions_result[OF less.prems, of a] by auto
    from less.hyps[OF result_empties[OF s'] result_well_shaped[OF less.prems s']] s'
    show "\<exists>s' v u. result s a = Inr s' \<and> minimax s' = Inr (v, u)" by auto
  qed
  show ?case
    by (simp add: minimax.simps(1)[of s] utility_terminal minimax_max_eq[OF ch] minimax_min_eq[OF ch])
qed

lemma minimax_children:
  assumes "well_shaped s" "a \<in> set (actions s)"
  shows "\<exists>s' u. result s a = Inr s' \<and> well_shaped s' \<and> empties s' < empties s \<and> child s a = s'
           \<and> minimax s' = Inr (minimax_value s', u)"
proof -
  from actions_result[OF assms] obtain s' where s': "result s a = Inr s'" by auto
  from minimax_total[OF result_well_shaped[OF assms(1) s']] s' result_empties[OF s']
    result_well_shaped[OF assms(1) s']
  show ?thesis by (auto simp: minimax_value_def child_def)
qed

lemma minimax_unfold:
  assumes "well_shaped s"
  shows "minimax s =
     (if terminal s then
        Inr (Fin (of_int (case winner s of Some PlayerX \<Rightarrow> 1 | Some PlayerO \<Rightarrow> - 1 | None \<Rightarrow> 0)), None)
      else if player s = PlayerX
        then Inr (best_max (\<lambda>a. minimax_value (child s a)) (sort (actions s)) MInf None)
        else Inr (best_min (\<lambda>a. minimax_value (child s a)) (sort (actions s)) PInf None))"
proof -
  have ch: "\<forall>a \<in> set (sort (actions s)). \<exists>s' v u. result s a = Inr s' \<and> minimax s' = Inr (v, u)"
    using minimax_children[OF assms] by fastforce
  show ?thesis
    by (simp add: minimax.simps(1)[of s] utility_terminal minimax_max_eq[OF ch] minimax_min_eq[OF ch])
qed

lemma best_max_bounds:
  "best_max f as bv bm = (v, mv) \<Longrightarrow>
     bv \<le> v \<and> (\<forall>a \<in> set as. f a \<le> v) \<and> (v = bv \<or> v \<in> f ` set as)"
proof (induction as arbitrary: bv bm)
  case Nil
  then show ?case by simp
next
  case (Cons a as)
  show ?case
  proof (cases "f a > bv")
    case True
    with Cons.prems have "best_max f as (f a) (Some a) = (v, mv)" by simp
    from Cons.IH[OF this] True show ?thesis by auto
  next
    case False
    with Cons.prems have "best_max f as bv bm = (v, mv)" by simp
    from Cons.IH[OF this] False show ?thesis by auto
  qed
qed

lemma best_min_bounds:
  "best_min f as bv bm = (v, mv) \<Longrightarrow>
     v \<le> bv \<and> (\<forall>a \<in> set as. v \<le> f a) \<and> (v = bv \<or> v \<in> f ` set as)"
proof (induction as arbitrary: bv bm)
  case Nil
  then show ?case by simp
next
  case (Cons a as)
  show ?case
  proof (cases "f a < bv")
    case True
    with Cons.prems have "best_min f as (f a) (Some a) = (v, mv)" by simp
    from Cons.IH[OF this] True show ?thesis by auto
  next
    case False
    with Cons.prems have "best_min f as bv bm = (v, mv)" by simp
    from Cons.IH[OF this] False show ?thesis by auto
  qed
qed

lemma best_max_move:
  "best_max f as bv bm = (v, mv) \<Longrightarrow>
     (if \<exists>a \<in> set as. bv < f a
      then \<exists>pre a post. as = pre @ a # post \<and> mv = Some a \<and> f a = v \<and> (\<forall>b \<in> set pre. f b < v)
      else v = bv \<and> mv = bm)"
proof (induction as arbitrary: bv bm)
  case Nil
  then show ?case by simp
next
  case (Cons a as)
  show ?case
  proof (cases "f a > bv")
    case True
    with Cons.prems have r: "best_max f as (f a) (Some a) = (v, mv)" by simp
    show ?thesis
    proof (cases "\<exists>b \<in> set as. f a < f b")
      case ex: True
      with Cons.IH[OF r] obtain pre b post where
        "as = pre @ b # post" "mv = Some b" "f b = v" "\<forall>c \<in> set pre. f c < v" by auto
      moreover from best_max_bounds[OF r] ex have "f a < v" by auto
      ultimately have "a # as = (a # pre) @ b # post \<and> mv = Some b \<and> f b = v
          \<and> (\<forall>c \<in> set (a # pre). f c < v)" by auto
      then show ?thesis using True by (metis list.set_intros(1))
    next
      case nex: False
      with Cons.IH[OF r] have "v = f a" "mv = Some a" by auto
      then have "a # as = [] @ a # as \<and> mv = Some a \<and> f a = v \<and> (\<forall>c \<in> set []. f c < v)"
        by auto
      then show ?thesis using True by (metis list.set_intros(1))
    qed
  next
    case False
    with Cons.prems have r: "best_max f as bv bm = (v, mv)" by simp
    show ?thesis
    proof (cases "\<exists>b \<in> set as. bv < f b")
      case ex: True
      with Cons.IH[OF r] obtain pre b post where
        "as = pre @ b # post" "mv = Some b" "f b = v" "\<forall>c \<in> set pre. f c < v" by auto
      moreover from best_max_bounds[OF r] ex False have "f a < v" by auto
      ultimately have "a # as = (a # pre) @ b # post \<and> mv = Some b \<and> f b = v
          \<and> (\<forall>c \<in> set (a # pre). f c < v)" by auto
      then show ?thesis using ex by (metis list.set_intros(2))
    next
      case nex: False
      with Cons.IH[OF r] False show ?thesis by auto
    qed
  qed
qed


lemma val_less_simps [simp]:
  "MInf < Fin a" "Fin a < PInf" "MInf < PInf"
  "(Fin a < Fin b) = (a < b)"
  "\<not> x < MInf" "\<not> PInf < x" "x \<le> PInf"
  "(x \<le> MInf) = (x = MInf)" "(PInf \<le> x) = (x = PInf)"
  by (cases x; auto simp: less_val_def)+

lemma best_min_move:
  "best_min f as bv bm = (v, mv) \<Longrightarrow>
     (if \<exists>a \<in> set as. f a < bv
      then \<exists>pre a post. as = pre @ a # post \<and> mv = Some a \<and> f a = v \<and> (\<forall>b \<in> set pre. v < f b)
      else v = bv \<and> mv = bm)"
proof (induction as arbitrary: bv bm)
  case Nil
  then show ?case by simp
next
  case (Cons a as)
  show ?case
  proof (cases "f a < bv")
    case True
    with Cons.prems have r: "best_min f as (f a) (Some a) = (v, mv)" by simp
    show ?thesis
    proof (cases "\<exists>b \<in> set as. f b < f a")
      case ex: True
      with Cons.IH[OF r] obtain pre b post where
        "as = pre @ b # post" "mv = Some b" "f b = v" "\<forall>c \<in> set pre. v < f c" by auto
      moreover from best_min_bounds[OF r] ex have "v < f a" by auto
      ultimately have "a # as = (a # pre) @ b # post \<and> mv = Some b \<and> f b = v
          \<and> (\<forall>c \<in> set (a # pre). v < f c)" by auto
      then show ?thesis using True by (metis list.set_intros(1))
    next
      case nex: False
      with Cons.IH[OF r] have "v = f a" "mv = Some a" by auto
      then have "a # as = [] @ a # as \<and> mv = Some a \<and> f a = v \<and> (\<forall>c \<in> set []. v < f c)"
        by auto
      then show ?thesis using True by (metis list.set_intros(1))
    qed
  next
    case False
    with Cons.prems have r: "best_min f as bv bm = (v, mv)" by simp
    show ?thesis
    proof (cases "\<exists>b \<in> set as. f b < bv")
      case ex: True
      with Cons.IH[OF r] obtain pre b post where
        "as = pre @ b # post" "mv = Some b" "f b = v" "\<forall>c \<in> set pre. v < f c" by auto
      moreover from best_min_bounds[OF r] ex False have "v < f a" by auto
      ultimately have "a # as = (a # pre) @ b # post \<and> mv = Some b \<and> f b = v
          \<and> (\<forall>c \<in> set (a # pre). v < f c)" by auto
      then show ?thesis using ex by (metis list.set_intros(2))
    next
      case nex: False
      with Cons.IH[OF r] False show ?thesis by auto
    qed
  qed
qed

lemma minimax_value_utility:
  assumes "wf_state s"
  shows "minimax_value s \<in> {Fin (- 1), Fin 0, Fin 1}"
  using assms
proof (induction "empties s" arbitrary: s rule: less_induct)
  case less
  let ?f = "\<lambda>a. minimax_value (child s a)"
  let ?as = "sort (actions s)"
  from less.prems have ws: "well_shaped s" by (simp add: wf_state_def)
  have ch: "?f a \<in> {Fin (- 1), Fin 0, Fin 1}" if "a \<in> set ?as" for a
  proof -
    from that minimax_children[OF ws, of a] obtain s' where
      s': "result s a = Inr s'" "empties s' < empties s" "child s a = s'" by auto
    from less.hyps[OF s'(2) result_wf_state[OF less.prems s'(1)]] s'(3) show ?thesis by simp
  qed
  show ?case
  proof (cases "terminal s")
    case True
    then show ?thesis
      by (simp add: minimax_value_def minimax_unfold[OF ws] split: option.splits mark.splits)
  next
    case False
    from wf_nonterminal_actions[OF less.prems False] have "hd (actions s) \<in> set ?as" by simp
    then obtain a0 where a0: "a0 \<in> set ?as" ..
    show ?thesis
    proof (cases "player s = PlayerX")
      case True
      obtain v mv where r: "best_max ?f ?as MInf None = (v, mv)" by force
      from best_max_bounds[OF r] ch[OF a0] a0 have "v \<noteq> MInf" by auto
      with best_max_bounds[OF r] ch have "v \<in> {Fin (- 1), Fin 0, Fin 1}" by blast
      with r False True show ?thesis by (simp add: minimax_value_def minimax_unfold[OF ws])
    next
      case po: False
      obtain v mv where r: "best_min ?f ?as PInf None = (v, mv)" by force
      from best_min_bounds[OF r] ch[OF a0] a0 have "v \<noteq> PInf" by auto
      with best_min_bounds[OF r] ch have "v \<in> {Fin (- 1), Fin 0, Fin 1}" by blast
      with r False po show ?thesis by (simp add: minimax_value_def minimax_unfold[OF ws])
    qed
  qed
qed

lemma sorted_distinct_before:
  fixes a :: "'a :: linorder"
  assumes "sorted (pre @ b # post)" "a \<in> set (pre @ b # post)" "a < b"
  shows "a \<in> set pre"
  using assms by (auto simp: sorted_append)

text \<open>
  Claim C6. On a well-formed non-terminal state, plain minimax returns a legal move
  whose successor has the returned value; that value is the greatest of the successors'
  minimax values when X is to move and the least when O is to move; and no legal move
  that is lexicographically smaller than the returned one has a successor of that value:
  the returned move is the first optimal move in lexicographic (row, column) order.
\<close>

theorem minimax_first_optimal_move:
  assumes "wf_state s" "\<not> terminal s"
  shows "\<exists>v mv s' u. minimax s = Inr (v, Some mv) \<and> mv \<in> set (actions s)
           \<and> result s mv = Inr s' \<and> minimax s' = Inr (v, u)
           \<and> (\<forall>a \<in> set (actions s). \<exists>sa va ua. result s a = Inr sa \<and> minimax sa = Inr (va, ua)
                  \<and> (if player s = PlayerX then va \<le> v else v \<le> va)
                  \<and> (a < mv \<longrightarrow> va \<noteq> v))"
proof -
  let ?f = "\<lambda>a. minimax_value (child s a)"
  let ?as = "sort (actions s)"
  from assms have ws: "well_shaped s" by (simp add: wf_state_def)
  have fin: "?f a \<in> {Fin (- 1), Fin 0, Fin 1}" if "a \<in> set (actions s)" for a
  proof -
    from that minimax_children[OF ws, of a] obtain s' where
      s': "result s a = Inr s'" "child s a = s'" by auto
    from minimax_value_utility[OF result_wf_state[OF assms(1) s'(1)]] s'(2) show ?thesis by simp
  qed
  from wf_nonterminal_actions[OF assms] have "hd (actions s) \<in> set (actions s)" by simp
  then obtain a0 where a0: "a0 \<in> set (actions s)" ..
  have ch: "\<exists>sa ua. result s a = Inr sa \<and> minimax sa = Inr (?f a, ua)" if "a \<in> set (actions s)" for a
    using minimax_children[OF ws that] by auto
  show ?thesis
  proof (cases "player s = PlayerX")
    case True
    obtain v mv where r: "best_max ?f ?as MInf None = (v, mv)" by force
    have mm: "minimax s = Inr (v, mv)" using r True assms(2) by (simp add: minimax_unfold[OF ws])
    have "\<exists>a \<in> set ?as. MInf < ?f a" using fin[OF a0] a0 by (intro bexI[of _ a0]) auto
    with best_max_move[OF r] obtain pre b post where
      b: "?as = pre @ b # post" "mv = Some b" "?f b = v" "\<forall>c \<in> set pre. ?f c < v" by auto
    from b(1) have bin: "b \<in> set (actions s)" by (metis in_set_conv_decomp set_sort)
    have each: "\<exists>sa va ua. result s a = Inr sa \<and> minimax sa = Inr (va, ua)
                  \<and> (if player s = PlayerX then va \<le> v else v \<le> va) \<and> (a < b \<longrightarrow> va \<noteq> v)"
      if a: "a \<in> set (actions s)" for a
    proof -
      from best_max_bounds[OF r] a have le: "?f a \<le> v" by auto
      have "?f a \<noteq> v" if "a < b"
      proof -
        have "sorted (pre @ b # post)" using b(1) by (metis sorted_sort)
        moreover have "a \<in> set (pre @ b # post)" using a b(1) by (metis set_sort)
        ultimately have "a \<in> set pre" using that by (rule sorted_distinct_before)
        with b(4) show ?thesis by auto
      qed
      with ch[OF a] le True show ?thesis by auto
    qed
    from ch[OF bin] b(3) obtain s' u where "result s b = Inr s'" "minimax s' = Inr (v, u)" by auto
    with mm b(2) bin each show ?thesis by blast
  next
    case po: False
    obtain v mv where r: "best_min ?f ?as PInf None = (v, mv)" by force
    have mm: "minimax s = Inr (v, mv)" using r po assms(2) by (simp add: minimax_unfold[OF ws])
    have "\<exists>a \<in> set ?as. ?f a < PInf" using fin[OF a0] a0 by (intro bexI[of _ a0]) auto
    with best_min_move[OF r] obtain pre b post where
      b: "?as = pre @ b # post" "mv = Some b" "?f b = v" "\<forall>c \<in> set pre. v < ?f c" by auto
    from b(1) have bin: "b \<in> set (actions s)" by (metis in_set_conv_decomp set_sort)
    have each: "\<exists>sa va ua. result s a = Inr sa \<and> minimax sa = Inr (va, ua)
                  \<and> (if player s = PlayerX then va \<le> v else v \<le> va) \<and> (a < b \<longrightarrow> va \<noteq> v)"
      if a: "a \<in> set (actions s)" for a
    proof -
      from best_min_bounds[OF r] a have le: "v \<le> ?f a" by auto
      have "?f a \<noteq> v" if "a < b"
      proof -
        have "sorted (pre @ b # post)" using b(1) by (metis sorted_sort)
        moreover have "a \<in> set (pre @ b # post)" using a b(1) by (metis set_sort)
        ultimately have "a \<in> set pre" using that by (rule sorted_distinct_before)
        with b(4) show ?thesis by auto
      qed
      with ch[OF a] le po show ?thesis by auto
    qed
    from ch[OF bin] b(3) obtain s' u where "result s b = Inr s'" "minimax s' = Inr (v, u)" by auto
    with mm b(2) bin each show ?thesis by blast
  qed
qed

theorem minimax_first_optimal_move_witness:
  "wf_state (initial_state 2 2) \<and> \<not> terminal (initial_state 2 2)
   \<and> (\<exists>v mv s' u. minimax (initial_state 2 2) = Inr (v, Some mv)
         \<and> mv \<in> set (actions (initial_state 2 2))
         \<and> result (initial_state 2 2) mv = Inr s' \<and> minimax s' = Inr (v, u)
         \<and> (\<forall>a \<in> set (actions (initial_state 2 2)).
               \<exists>sa va ua. result (initial_state 2 2) a = Inr sa \<and> minimax sa = Inr (va, ua)
                 \<and> (if player (initial_state 2 2) = PlayerX then va \<le> v else v \<le> va)
                 \<and> (a < mv \<longrightarrow> va \<noteq> v)))"
proof -
  have w: "wf_state (initial_state 2 2)" by code_simp
  have n: "\<not> terminal (initial_state 2 2)" by code_simp
  show ?thesis using minimax_first_optimal_move[OF w n] w n by simp
qed


section \<open>Alpha-beta minimax\<close>

text \<open>
  \<open>legal_moves\<close> is the list that \<open>minimax_ab\<close> iterates over, \<open>ab_value\<close> the value it
  returns, and \<open>ab_best_max\<close> and \<open>ab_best_min\<close> are its two loops over given successor
  values (which depend on the bounds passed down).
\<close>

definition legal_moves :: "state \<Rightarrow> bool \<Rightarrow> move list" where
  "legal_moves s use_ordering =
     (case (if use_ordering then order_moves s (actions s) True else Inr (sort (actions s))) of
        Inr mvs \<Rightarrow> mvs | Inl e \<Rightarrow> [])"

lemma legal_moves:
  assumes "well_shaped s"
  shows "(if use_ordering then order_moves s (actions s) True else Inr (sort (actions s)))
           = Inr (legal_moves s use_ordering)"
    and "mset (legal_moves s use_ordering) = mset (actions s)"
    and "set (legal_moves s use_ordering) = set (actions s)"
    and "legal_moves s False = sort (actions s)"
proof -
  have "\<exists>out. order_moves s (actions s) True = Inr out"
    using actions_result[OF assms] by (intro order_moves_total) auto
  then obtain out where out: "order_moves s (actions s) True = Inr out" ..
  from order_moves_mset[OF out] out
  show 1: "(if use_ordering then order_moves s (actions s) True else Inr (sort (actions s)))
           = Inr (legal_moves s use_ordering)"
    and 2: "mset (legal_moves s use_ordering) = mset (actions s)"
    by (auto simp: legal_moves_def)
  from 2 show "set (legal_moves s use_ordering) = set (actions s)" by (rule mset_eq_setD)
  show "legal_moves s False = sort (actions s)" by (simp add: legal_moves_def)
qed

definition ab_value :: "state \<Rightarrow> val \<Rightarrow> val \<Rightarrow> bool \<Rightarrow> val" where
  "ab_value s alpha beta use_ordering =
     (case minimax_ab s alpha beta use_ordering of Inr (v, u) \<Rightarrow> v | Inl e \<Rightarrow> MInf)"

definition search_value :: "state \<Rightarrow> int \<Rightarrow> (state \<Rightarrow> rat) \<Rightarrow> val \<Rightarrow> val \<Rightarrow> val" where
  "search_value s depth eval_fn alpha beta =
     (case search s depth eval_fn alpha beta of Inr (v, u) \<Rightarrow> v | Inl e \<Rightarrow> MInf)"

fun ab_best_max ::
  "('a \<Rightarrow> val \<Rightarrow> val \<Rightarrow> val) \<Rightarrow> 'a list \<Rightarrow> val \<Rightarrow> 'a option \<Rightarrow> val \<Rightarrow> val \<Rightarrow> val \<times> 'a option"
where
  "ab_best_max g [] best_value best_move alpha beta = (best_value, best_move)"
| "ab_best_max g (a # rest) best_value best_move alpha beta =
     (let v = g a alpha beta;
          best_value' = (if v > best_value then v else best_value);
          best_move' = (if v > best_value then Some a else best_move);
          alpha' = max alpha best_value'
      in if beta \<le> alpha' then (best_value', best_move')
         else ab_best_max g rest best_value' best_move' alpha' beta)"

fun ab_best_min ::
  "('a \<Rightarrow> val \<Rightarrow> val \<Rightarrow> val) \<Rightarrow> 'a list \<Rightarrow> val \<Rightarrow> 'a option \<Rightarrow> val \<Rightarrow> val \<Rightarrow> val \<times> 'a option"
where
  "ab_best_min g [] best_value best_move alpha beta = (best_value, best_move)"
| "ab_best_min g (a # rest) best_value best_move alpha beta =
     (let v = g a alpha beta;
          best_value' = (if v < best_value then v else best_value);
          best_move' = (if v < best_value then Some a else best_move);
          beta' = min beta best_value'
      in if beta' \<le> alpha then (best_value', best_move')
         else ab_best_min g rest best_value' best_move' alpha beta')"

lemma minimax_ab_max_eq:
  assumes "\<forall>a \<in> set as. \<exists>s'. result s a = Inr s' \<and> (\<forall>alpha beta. \<exists>v u. minimax_ab s' alpha beta uo = Inr (v, u))"
  shows "minimax_ab_max s as bv bm alpha beta uo
           = Inr (ab_best_max (\<lambda>a al be. ab_value (child s a) al be uo) as bv bm alpha beta)"
  using assms
proof (induction as arbitrary: bv bm alpha)
  case Nil
  then show ?case by simp
next
  case (Cons a as)
  then obtain s' where s': "result s a = Inr s'" by auto
  with Cons.prems obtain v u where v: "minimax_ab s' alpha beta uo = Inr (v, u)" by fastforce
  from Cons.prems have rest: "\<forall>a \<in> set as. \<exists>s'. result s a = Inr s' \<and> (\<forall>alpha beta. \<exists>v u. minimax_ab s' alpha beta uo = Inr (v, u))"
    by simp
  show ?case
    using s' v Cons.IH[OF rest] by (simp add: child_def ab_value_def Let_def)
qed

lemma minimax_ab_min_eq:
  assumes "\<forall>a \<in> set as. \<exists>s'. result s a = Inr s' \<and> (\<forall>alpha beta. \<exists>v u. minimax_ab s' alpha beta uo = Inr (v, u))"
  shows "minimax_ab_min s as bv bm alpha beta uo
           = Inr (ab_best_min (\<lambda>a al be. ab_value (child s a) al be uo) as bv bm alpha beta)"
  using assms
proof (induction as arbitrary: bv bm beta)
  case Nil
  then show ?case by simp
next
  case (Cons a as)
  then obtain s' where s': "result s a = Inr s'" by auto
  with Cons.prems obtain v u where v: "minimax_ab s' alpha beta uo = Inr (v, u)" by fastforce
  from Cons.prems have rest: "\<forall>a \<in> set as. \<exists>s'. result s a = Inr s' \<and> (\<forall>alpha beta. \<exists>v u. minimax_ab s' alpha beta uo = Inr (v, u))"
    by simp
  show ?case
    using s' v Cons.IH[OF rest] by (simp add: child_def ab_value_def Let_def)
qed

lemma minimax_ab_total: "well_shaped s \<Longrightarrow> \<exists>v u. minimax_ab s alpha beta uo = Inr (v, u)"
proof (induction "empties s" arbitrary: s alpha beta rule: less_induct)
  case less
  have ch: "\<forall>a \<in> set (legal_moves s uo). \<exists>s'. result s a = Inr s'
              \<and> (\<forall>alpha beta. \<exists>v u. minimax_ab s' alpha beta uo = Inr (v, u))"
  proof
    fix a assume "a \<in> set (legal_moves s uo)"
    then obtain s' where s': "result s a = Inr s'"
      using actions_result[OF less.prems, of a] legal_moves(3)[OF less.prems] by auto
    from less.hyps[OF result_empties[OF s'] result_well_shaped[OF less.prems s']] s'
    show "\<exists>s'. result s a = Inr s' \<and> (\<forall>alpha beta. \<exists>v u. minimax_ab s' alpha beta uo = Inr (v, u))"
      by auto
  qed
  show ?case
    by (simp add: minimax_ab.simps(1)[of s] utility_terminal legal_moves(1)[OF less.prems]
        minimax_ab_max_eq[OF ch] minimax_ab_min_eq[OF ch] del: if_split)
qed

lemma minimax_ab_children:
  assumes "well_shaped s" "a \<in> set (actions s)"
  shows "\<exists>s'. result s a = Inr s' \<and> well_shaped s' \<and> empties s' < empties s \<and> child s a = s'
           \<and> (\<forall>alpha beta. \<exists>u. minimax_ab s' alpha beta uo = Inr (ab_value s' alpha beta uo, u))"
proof -
  from actions_result[OF assms] obtain s' where s': "result s a = Inr s'" by auto
  have "\<exists>u. minimax_ab s' alpha beta uo = Inr (ab_value s' alpha beta uo, u)" for alpha beta
    using minimax_ab_total[OF result_well_shaped[OF assms(1) s'], of alpha beta uo]
    by (auto simp: ab_value_def)
  with s' result_empties[OF s'] result_well_shaped[OF assms(1) s']
  show ?thesis by (auto simp: child_def)
qed

lemma minimax_ab_unfold:
  assumes "well_shaped s"
  shows "minimax_ab s alpha beta uo =
     (if terminal s then
        Inr (Fin (of_int (case winner s of Some PlayerX \<Rightarrow> 1 | Some PlayerO \<Rightarrow> - 1 | None \<Rightarrow> 0)), None)
      else if player s = PlayerX
        then Inr (ab_best_max (\<lambda>a al be. ab_value (child s a) al be uo)
                    (legal_moves s uo) MInf None alpha beta)
        else Inr (ab_best_min (\<lambda>a al be. ab_value (child s a) al be uo)
                    (legal_moves s uo) PInf None alpha beta))"
proof -
  have ch: "\<forall>a \<in> set (legal_moves s uo). \<exists>s'. result s a = Inr s'
              \<and> (\<forall>alpha beta. \<exists>v u. minimax_ab s' alpha beta uo = Inr (v, u))"
    using minimax_ab_children[OF assms, of _ uo] legal_moves(3)[OF assms] by fastforce
  show ?thesis
    by (simp add: minimax_ab.simps(1)[of s] utility_terminal legal_moves(1)[OF assms]
        minimax_ab_max_eq[OF ch] minimax_ab_min_eq[OF ch] del: if_split)
qed


section \<open>Depth-limited search\<close>

lemma search_max_eq:
  assumes "\<forall>a \<in> set as. \<exists>s'. result s a = Inr s'
             \<and> (\<forall>alpha beta. \<exists>v u. search s' (depth - 1) eval_fn alpha beta = Inr (v, u))"
  shows "search_max s as depth eval_fn bv bm alpha beta
           = Inr (ab_best_max (\<lambda>a al be. search_value (child s a) (depth - 1) eval_fn al be)
                    as bv bm alpha beta)"
  using assms
proof (induction as arbitrary: bv bm alpha)
  case Nil
  then show ?case by simp
next
  case (Cons a as)
  then obtain s' where s': "result s a = Inr s'" by auto
  with Cons.prems obtain v u where v: "search s' (depth - 1) eval_fn alpha beta = Inr (v, u)"
    by fastforce
  from Cons.prems have rest: "\<forall>a \<in> set as. \<exists>s'. result s a = Inr s'
             \<and> (\<forall>alpha beta. \<exists>v u. search s' (depth - 1) eval_fn alpha beta = Inr (v, u))"
    by simp
  show ?case
    using s' v Cons.IH[OF rest] by (simp add: child_def search_value_def Let_def)
qed

lemma search_min_eq:
  assumes "\<forall>a \<in> set as. \<exists>s'. result s a = Inr s'
             \<and> (\<forall>alpha beta. \<exists>v u. search s' (depth - 1) eval_fn alpha beta = Inr (v, u))"
  shows "search_min s as depth eval_fn bv bm alpha beta
           = Inr (ab_best_min (\<lambda>a al be. search_value (child s a) (depth - 1) eval_fn al be)
                    as bv bm alpha beta)"
  using assms
proof (induction as arbitrary: bv bm beta)
  case Nil
  then show ?case by simp
next
  case (Cons a as)
  then obtain s' where s': "result s a = Inr s'" by auto
  with Cons.prems obtain v u where v: "search s' (depth - 1) eval_fn alpha beta = Inr (v, u)"
    by fastforce
  from Cons.prems have rest: "\<forall>a \<in> set as. \<exists>s'. result s a = Inr s'
             \<and> (\<forall>alpha beta. \<exists>v u. search s' (depth - 1) eval_fn alpha beta = Inr (v, u))"
    by simp
  show ?case
    using s' v Cons.IH[OF rest] by (simp add: child_def search_value_def Let_def)
qed

lemma search_total: "well_shaped s \<Longrightarrow> \<exists>v u. search s depth eval_fn alpha beta = Inr (v, u)"
proof (induction "empties s" arbitrary: s depth alpha beta rule: less_induct)
  case less
  have ch: "\<forall>a \<in> set (legal_moves s True). \<exists>s'. result s a = Inr s'
              \<and> (\<forall>alpha beta. \<exists>v u. search s' (depth - 1) eval_fn alpha beta = Inr (v, u))"
  proof
    fix a assume "a \<in> set (legal_moves s True)"
    then obtain s' where s': "result s a = Inr s'"
      using actions_result[OF less.prems, of a] legal_moves(3)[OF less.prems] by auto
    from less.hyps[OF result_empties[OF s'] result_well_shaped[OF less.prems s']] s'
    show "\<exists>s'. result s a = Inr s'
            \<and> (\<forall>alpha beta. \<exists>v u. search s' (depth - 1) eval_fn alpha beta = Inr (v, u))"
      by auto
  qed
  show ?case
    using legal_moves(1)[OF less.prems, of True]
    by (simp add: search.simps(1)[of s] Let_def search_max_eq[OF ch] search_min_eq[OF ch])
qed

lemma search_children:
  assumes "well_shaped s" "a \<in> set (actions s)"
  shows "\<exists>s'. result s a = Inr s' \<and> well_shaped s' \<and> empties s' < empties s \<and> child s a = s'
           \<and> (\<forall>d alpha beta. \<exists>u. search s' d eval_fn alpha beta
                                    = Inr (search_value s' d eval_fn alpha beta, u))"
proof -
  from actions_result[OF assms] obtain s' where s': "result s a = Inr s'" by auto
  have "\<exists>u. search s' d eval_fn alpha beta = Inr (search_value s' d eval_fn alpha beta, u)"
    for d alpha beta
    using search_total[OF result_well_shaped[OF assms(1) s'], of d eval_fn alpha beta]
    by (auto simp: search_value_def)
  with s' result_empties[OF s'] result_well_shaped[OF assms(1) s']
  show ?thesis by (auto simp: child_def)
qed

lemma search_unfold:
  assumes "well_shaped s"
  shows "search s depth eval_fn alpha beta =
     (if terminal s then
        Inr (Fin (if winner s = Some PlayerX then 1000
                  else if winner s = Some PlayerO then - 1000 else 0), None)
      else if depth = 0 then Inr (Fin (eval_fn s), None)
      else if player s = PlayerX
        then Inr (ab_best_max (\<lambda>a al be. search_value (child s a) (depth - 1) eval_fn al be)
                    (legal_moves s True) MInf None alpha beta)
        else Inr (ab_best_min (\<lambda>a al be. search_value (child s a) (depth - 1) eval_fn al be)
                    (legal_moves s True) PInf None alpha beta))"
proof -
  have ch: "\<forall>a \<in> set (legal_moves s True). \<exists>s'. result s a = Inr s'
              \<and> (\<forall>alpha beta. \<exists>v u. search s' (depth - 1) eval_fn alpha beta = Inr (v, u))"
    using search_children[OF assms, of _ eval_fn] legal_moves(3)[OF assms] by fastforce
  show ?thesis
    using legal_moves(1)[OF assms, of True]
    by (auto simp: search.simps(1)[of s] Let_def search_max_eq[OF ch] search_min_eq[OF ch]
        utility_terminal split: option.splits mark.splits)
qed

subsection \<open>Finite values and present moves\<close>

lemma ab_best_max_finite:
  assumes "\<forall>a \<in> set as. \<forall>al be. g a al be \<noteq> MInf \<and> g a al be \<noteq> PInf"
    and "ab_best_max g as bv bm alpha beta = (v, mv)"
    and "bv \<noteq> PInf" and "bv = MInf \<longrightarrow> as \<noteq> []" and "bm = None \<longrightarrow> bv = MInf"
  shows "v \<noteq> MInf \<and> v \<noteq> PInf \<and> (as \<noteq> [] \<or> bm \<noteq> None \<longrightarrow> mv \<noteq> None)"
  using assms
proof (induction as arbitrary: bv bm alpha)
  case Nil
  then show ?case by auto
next
  case (Cons a as)
  let ?v = "g a alpha beta"
  let ?bv = "if ?v > bv then ?v else bv"
  let ?bm = "if ?v > bv then Some a else bm"
  from Cons.prems(1) have fin: "?v \<noteq> MInf" "?v \<noteq> PInf" by auto
  have bv': "?bv \<noteq> PInf" "?bv \<noteq> MInf" using fin Cons.prems(3) by (cases bv; cases ?v; auto)+
  have bm': "?bm \<noteq> None" using Cons.prems(5) fin by (cases ?v) auto
  show ?case
  proof (cases "beta \<le> max alpha ?bv")
    case True
    with Cons.prems(2) have "v = ?bv" "mv = ?bm" by (auto simp: Let_def)
    with bv' bm' show ?thesis by simp
  next
    case False
    with Cons.prems(2) have r: "ab_best_max g as ?bv ?bm (max alpha ?bv) beta = (v, mv)"
      by (auto simp: Let_def)
    from Cons.prems(1) have rest: "\<forall>a \<in> set as. \<forall>al be. g a al be \<noteq> MInf \<and> g a al be \<noteq> PInf" by simp
    from Cons.IH[OF rest r bv'(1)] bv'(2) bm' show ?thesis by simp
  qed
qed

lemma ab_best_min_finite:
  assumes "\<forall>a \<in> set as. \<forall>al be. g a al be \<noteq> MInf \<and> g a al be \<noteq> PInf"
    and "ab_best_min g as bv bm alpha beta = (v, mv)"
    and "bv \<noteq> MInf" and "bv = PInf \<longrightarrow> as \<noteq> []" and "bm = None \<longrightarrow> bv = PInf"
  shows "v \<noteq> MInf \<and> v \<noteq> PInf \<and> (as \<noteq> [] \<or> bm \<noteq> None \<longrightarrow> mv \<noteq> None)"
  using assms
proof (induction as arbitrary: bv bm beta)
  case Nil
  then show ?case by auto
next
  case (Cons a as)
  let ?v = "g a alpha beta"
  let ?bv = "if ?v < bv then ?v else bv"
  let ?bm = "if ?v < bv then Some a else bm"
  from Cons.prems(1) have fin: "?v \<noteq> MInf" "?v \<noteq> PInf" by auto
  have bv': "?bv \<noteq> MInf" "?bv \<noteq> PInf" using fin Cons.prems(3) by (cases bv; cases ?v; auto)+
  have bm': "?bm \<noteq> None" using Cons.prems(5) fin by (cases ?v) auto
  show ?case
  proof (cases "min beta ?bv \<le> alpha")
    case True
    with Cons.prems(2) have "v = ?bv" "mv = ?bm" by (auto simp: Let_def)
    with bv' bm' show ?thesis by simp
  next
    case False
    with Cons.prems(2) have r: "ab_best_min g as ?bv ?bm alpha (min beta ?bv) = (v, mv)"
      by (auto simp: Let_def)
    from Cons.prems(1) have rest: "\<forall>a \<in> set as. \<forall>al be. g a al be \<noteq> MInf \<and> g a al be \<noteq> PInf" by simp
    from Cons.IH[OF rest r bv'(1)] bv'(2) bm' show ?thesis by simp
  qed
qed


lemma wf_has_action:
  assumes "wf_state s" "\<not> terminal s"
  shows "legal_moves s uo \<noteq> []"
proof -
  from assms have ws: "well_shaped s" by (simp add: wf_state_def)
  from wf_nonterminal_actions[OF assms] legal_moves(3)[OF ws, of uo] show ?thesis by auto
qed

lemma ab_value_finite:
  assumes "wf_state s"
  shows "ab_value s alpha beta uo \<noteq> MInf \<and> ab_value s alpha beta uo \<noteq> PInf
         \<and> (\<not> terminal s \<longrightarrow> (\<exists>v mv. minimax_ab s alpha beta uo = Inr (v, Some mv)))"
  using assms
proof (induction "empties s" arbitrary: s alpha beta rule: less_induct)
  case less
  let ?g = "\<lambda>a al be. ab_value (child s a) al be uo"
  let ?as = "legal_moves s uo"
  from less.prems have ws: "well_shaped s" by (simp add: wf_state_def)
  have ch: "\<forall>a \<in> set ?as. \<forall>al be. ?g a al be \<noteq> MInf \<and> ?g a al be \<noteq> PInf"
  proof (intro ballI allI)
    fix a al be assume "a \<in> set ?as"
    then have "a \<in> set (actions s)" using legal_moves(3)[OF ws] by simp
    from minimax_ab_children[OF ws this, of uo] obtain s' where
      s': "result s a = Inr s'" "empties s' < empties s" "child s a = s'" by auto
    from less.hyps[OF s'(2) result_wf_state[OF less.prems s'(1)], of al be] s'(3)
    show "?g a al be \<noteq> MInf \<and> ?g a al be \<noteq> PInf" by simp
  qed
  show ?case
  proof (cases "terminal s")
    case True
    then show ?thesis by (simp add: ab_value_def minimax_ab_unfold[OF ws])
  next
    case False
    note ne = wf_has_action[OF less.prems False, of uo]
    show ?thesis
    proof (cases "player s = PlayerX")
      case True
      obtain v mv where r: "ab_best_max ?g ?as MInf None alpha beta = (v, mv)" by force
      have eq: "minimax_ab s alpha beta uo = Inr (v, mv)"
        using r False True by (simp add: minimax_ab_unfold[OF ws])
      then have "ab_value s alpha beta uo = v" by (simp add: ab_value_def)
      with ab_best_max_finite[OF ch r] ne eq show ?thesis by auto
    next
      case po: False
      obtain v mv where r: "ab_best_min ?g ?as PInf None alpha beta = (v, mv)" by force
      have eq: "minimax_ab s alpha beta uo = Inr (v, mv)"
        using r False po by (simp add: minimax_ab_unfold[OF ws])
      then have "ab_value s alpha beta uo = v" by (simp add: ab_value_def)
      with ab_best_min_finite[OF ch r] ne eq show ?thesis by auto
    qed
  qed
qed

lemma search_value_finite:
  assumes "wf_state s"
  shows "search_value s depth eval_fn alpha beta \<noteq> MInf
         \<and> search_value s depth eval_fn alpha beta \<noteq> PInf
         \<and> (\<not> terminal s \<and> depth \<noteq> 0 \<longrightarrow>
              (\<exists>v mv. search s depth eval_fn alpha beta = Inr (v, Some mv)))"
  using assms
proof (induction "empties s" arbitrary: s depth alpha beta rule: less_induct)
  case less
  let ?g = "\<lambda>a al be. search_value (child s a) (depth - 1) eval_fn al be"
  let ?as = "legal_moves s True"
  from less.prems have ws: "well_shaped s" by (simp add: wf_state_def)
  have ch: "\<forall>a \<in> set ?as. \<forall>al be. ?g a al be \<noteq> MInf \<and> ?g a al be \<noteq> PInf"
  proof (intro ballI allI)
    fix a al be assume "a \<in> set ?as"
    then have "a \<in> set (actions s)" using legal_moves(3)[OF ws] by simp
    from search_children[OF ws this, of eval_fn] obtain s' where
      s': "result s a = Inr s'" "empties s' < empties s" "child s a = s'" by auto
    from less.hyps[OF s'(2) result_wf_state[OF less.prems s'(1)], of "depth - 1" al be] s'(3)
    show "?g a al be \<noteq> MInf \<and> ?g a al be \<noteq> PInf" by simp
  qed
  show ?case
  proof (cases "terminal s \<or> depth = 0")
    case True
    then show ?thesis by (auto simp: search_value_def search_unfold[OF ws])
  next
    case False
    then have nt: "\<not> terminal s" and d: "depth \<noteq> 0" by auto
    note ne = wf_has_action[OF less.prems nt, of True]
    show ?thesis
    proof (cases "player s = PlayerX")
      case True
      obtain v mv where r: "ab_best_max ?g ?as MInf None alpha beta = (v, mv)" by force
      have eq: "search s depth eval_fn alpha beta = Inr (v, mv)"
        using r nt d True by (simp add: search_unfold[OF ws])
      then have "search_value s depth eval_fn alpha beta = v" by (simp add: search_value_def)
      with ab_best_max_finite[OF ch r] ne eq show ?thesis by auto
    next
      case po: False
      obtain v mv where r: "ab_best_min ?g ?as PInf None alpha beta = (v, mv)" by force
      have eq: "search s depth eval_fn alpha beta = Inr (v, mv)"
        using r nt d po by (simp add: search_unfold[OF ws])
      then have "search_value s depth eval_fn alpha beta = v" by (simp add: search_value_def)
      with ab_best_min_finite[OF ch r] ne eq show ?thesis by auto
    qed
  qed
qed

lemma minimax_move_present:
  assumes "wf_state s" "\<not> terminal s"
  shows "\<exists>v mv. minimax s = Inr (v, Some mv)"
proof -
  let ?f = "\<lambda>a. minimax_value (child s a)"
  let ?as = "sort (actions s)"
  from assms have ws: "well_shaped s" by (simp add: wf_state_def)
  from wf_nonterminal_actions[OF assms] have "hd (actions s) \<in> set (actions s)" by simp
  then obtain a0 where a0: "a0 \<in> set (actions s)" ..
  from minimax_children[OF ws a0] obtain s' where
      s': "result s a0 = Inr s'" "child s a0 = s'" by auto
  from minimax_value_utility[OF result_wf_state[OF assms(1) s'(1)]] s'(2)
  have fin: "?f a0 \<in> {Fin (- 1), Fin 0, Fin 1}" by simp
  show ?thesis
  proof (cases "player s = PlayerX")
    case True
    obtain v mv where r: "best_max ?f ?as MInf None = (v, mv)" by force
    have "\<exists>a \<in> set ?as. MInf < ?f a" using fin a0 by (intro bexI[of _ a0]) auto
    with best_max_move[OF r] r True assms(2) show ?thesis
      by (auto simp: minimax_unfold[OF ws])
  next
    case po: False
    obtain v mv where r: "best_min ?f ?as PInf None = (v, mv)" by force
    have "\<exists>a \<in> set ?as. ?f a < PInf" using fin a0 by (intro bexI[of _ a0]) auto
    with best_min_move[OF r] r po assms(2) show ?thesis
      by (auto simp: minimax_unfold[OF ws])
  qed
qed

text \<open>
  Claim C3, as stated, fails for depth-limited search: at depth 0 it returns the
  evaluation of a non-terminal state with no move.
\<close>

theorem search_depth0_returns_no_move:
  "\<not> terminal (initial_state 3 3)
   \<and> search (initial_state 3 3) 0 evaluate MInf PInf = Inr (Fin 0, None)"
  by code_simp

text \<open>
  Claim C3, amended. On a well-formed non-terminal state, \<open>minimax\<close>, \<open>minimax_ab\<close> (for
  every bounds and both ordering modes) and depth-limited search at every depth other
  than 0 (for every evaluator and every bounds) return a move; depth-limited search at
  depth 0 returns none.
\<close>

theorem best_move_present:
  assumes "wf_state s" "\<not> terminal s"
  shows "(\<exists>v mv. minimax s = Inr (v, Some mv))
         \<and> (\<forall>alpha beta use_ordering. \<exists>v mv. minimax_ab s alpha beta use_ordering = Inr (v, Some mv))
         \<and> (\<forall>depth eval_fn alpha beta. depth \<noteq> 0 \<longrightarrow>
               (\<exists>v mv. search s depth eval_fn alpha beta = Inr (v, Some mv)))"
  using minimax_move_present[OF assms] ab_value_finite[OF assms(1)] search_value_finite[OF assms(1)]
    assms(2) by blast

theorem best_move_present_witness:
  "wf_state (initial_state 2 2) \<and> \<not> terminal (initial_state 2 2)
   \<and> (\<exists>v mv. minimax (initial_state 2 2) = Inr (v, Some mv))
   \<and> (\<exists>v mv. minimax_ab (initial_state 2 2) MInf PInf True = Inr (v, Some mv))
   \<and> (1::int) \<noteq> 0
   \<and> (\<exists>v mv. search (initial_state 2 2) 1 evaluate MInf PInf = Inr (v, Some mv))"
proof -
  have w: "wf_state (initial_state 2 2)" by code_simp
  have n: "\<not> terminal (initial_state 2 2)" by code_simp
  show ?thesis using best_move_present[OF w n] w n by simp
qed


section \<open>Alpha-beta pruning returns the minimax value\<close>

text \<open>
  The fail-soft contract of a search with bounds \<open>alpha < beta\<close>, where \<open>x\<close> is the minimax
  value and \<open>y\<close> the value returned: a result at or below \<open>alpha\<close> is an upper bound of \<open>x\<close>,
  a result at or above \<open>beta\<close> is a lower bound, and a result strictly between is exact.
\<close>

definition fail_soft :: "val \<Rightarrow> val \<Rightarrow> val \<Rightarrow> val \<Rightarrow> bool" where
  "fail_soft alpha beta x y =
     ((y \<le> alpha \<longrightarrow> x \<le> y) \<and> (alpha < y \<and> y < beta \<longrightarrow> y = x) \<and> (beta \<le> y \<longrightarrow> y \<le> x))"

lemma fail_soft_max_step:
  fixes alpha beta bv c c' R y :: val
  assumes fs: "fail_soft alpha beta c c'"
    and ab: "alpha < beta" and bva: "bv \<le> alpha" and bvR: "bv \<le> R"
    and lt: "max alpha (if c' > bv then c' else bv) < beta"
    and ih: "fail_soft (max alpha (if c' > bv then c' else bv)) beta
               (max (if c' > bv then c' else bv) R) y"
    and ge: "(if c' > bv then c' else bv) \<le> y"
  shows "fail_soft alpha beta (max c R) y \<and> bv \<le> y"
proof (cases "c' \<le> alpha")
  case True
  with fs have cc: "c \<le> c'" by (simp add: fail_soft_def)
  from True bva have a1: "max alpha (if c' > bv then c' else bv) = alpha" by (auto simp: max_def)
  show ?thesis
    using ih ge cc True bva bvR ab unfolding a1 fail_soft_def
    by (auto simp: max_def split: if_splits)
next
  case False
  then have c'a: "alpha < c'" by simp
  with lt have c'b: "c' < beta" by (auto simp: max_def split: if_splits)
  with fs c'a have cc: "c' = c" by (simp add: fail_soft_def)
  from c'a bva have bv1: "(if c' > bv then c' else bv) = c'" by auto
  from c'a have a1: "max alpha c' = c'" by (simp add: max_absorb2 less_imp_le)
  show ?thesis
    using ih ge c'a c'b bva bvR ab unfolding bv1 a1 cc[symmetric] fail_soft_def
    by (auto simp: max_def split: if_splits)
qed

lemma fail_soft_min_step:
  fixes alpha beta bv c c' R y :: val
  assumes fs: "fail_soft alpha beta c c'"
    and ab: "alpha < beta" and bva: "beta \<le> bv" and bvR: "R \<le> bv"
    and lt: "alpha < min beta (if c' < bv then c' else bv)"
    and ih: "fail_soft alpha (min beta (if c' < bv then c' else bv))
               (min (if c' < bv then c' else bv) R) y"
    and ge: "y \<le> (if c' < bv then c' else bv)"
  shows "fail_soft alpha beta (min c R) y \<and> y \<le> bv"
proof (cases "beta \<le> c'")
  case True
  with fs have cc: "c' \<le> c" by (simp add: fail_soft_def)
  from True bva have a1: "min beta (if c' < bv then c' else bv) = beta" by (auto simp: min_def)
  show ?thesis
    using ih ge cc True bva bvR ab unfolding a1 fail_soft_def
    by (auto simp: min_def split: if_splits)
next
  case False
  then have c'b: "c' < beta" by simp
  with lt have c'a: "alpha < c'" by (auto simp: min_def split: if_splits)
  with fs c'b have cc: "c' = c" by (simp add: fail_soft_def)
  from c'b bva have bv1: "(if c' < bv then c' else bv) = c'" by auto
  from c'b have a1: "min beta c' = c'" by (simp add: min_absorb2 less_imp_le)
  show ?thesis
    using ih ge c'a c'b bva bvR ab unfolding bv1 a1 cc[symmetric] fail_soft_def
    by (auto simp: min_def split: if_splits)
qed

lemma best_max_fst_Cons:
  "fst (best_max f (a # as) bv bm) = max (f a) (fst (best_max f as bv bm'))"
proof -
  obtain v1 m1 where r1: "best_max f as (f a) (Some a) = (v1, m1)" by force
  obtain v2 m2 where r2: "best_max f as bv bm = (v2, m2)" by force
  obtain v3 m3 where r3: "best_max f as bv bm' = (v3, m3)" by force
  note b1 = best_max_bounds[OF r1] 
  note b2 = best_max_bounds[OF r2]
  note b3 = best_max_bounds[OF r3]
  have e23: "v2 = v3" using b2 b3 by (metis antisym image_iff)
  show ?thesis
  proof (cases "f a > bv")
    case True
    have "v1 = max (f a) v3" using b1 b3 True
      by (smt (verit) antisym image_iff max_def order.strict_implies_order order_trans linear)
    with True r1 r3 show ?thesis by simp
  next
    case False
    then have "f a \<le> v3" using b3 by (meson leI order_trans)
    with False r2 r3 e23 show ?thesis by (simp add: max_def)
  qed
qed

lemma best_min_fst_Cons:
  "fst (best_min f (a # as) bv bm) = min (f a) (fst (best_min f as bv bm'))"
proof -
  obtain v1 m1 where r1: "best_min f as (f a) (Some a) = (v1, m1)" by force
  obtain v2 m2 where r2: "best_min f as bv bm = (v2, m2)" by force
  obtain v3 m3 where r3: "best_min f as bv bm' = (v3, m3)" by force
  note b1 = best_min_bounds[OF r1] 
  note b2 = best_min_bounds[OF r2]
  note b3 = best_min_bounds[OF r3]
  have e23: "v2 = v3" using b2 b3 by (metis antisym image_iff)
  show ?thesis
  proof (cases "f a < bv")
    case True
    have "v1 = min (f a) v3" using b1 b3 True
      by (smt (verit) antisym image_iff min_def order.strict_implies_order order_trans linear)
    with True r1 r3 show ?thesis by simp
  next
    case False
    then have "v3 \<le> f a" using b3 by (meson leI order_trans)
    with False r2 r3 e23 show ?thesis by (simp add: min_def)
  qed
qed

lemma best_max_fst_Max: "fst (best_max f as bv bm) = Max (insert bv (f ` set as))"
proof (induction as)
  case Nil
  then show ?case by simp
next
  case (Cons a as)
  have "fst (best_max f (a # as) bv bm) = max (f a) (Max (insert bv (f ` set as)))"
    using best_max_fst_Cons[of f a as bv bm bm] Cons by simp
  also have "\<dots> = Max (insert (f a) (insert bv (f ` set as)))" by simp
  finally show ?case by (simp add: insert_commute)
qed

lemma best_min_fst_Min: "fst (best_min f as bv bm) = Min (insert bv (f ` set as))"
proof (induction as)
  case Nil
  then show ?case by simp
next
  case (Cons a as)
  have "fst (best_min f (a # as) bv bm) = min (f a) (Min (insert bv (f ` set as)))"
    using best_min_fst_Cons[of f a as bv bm bm] Cons by simp
  also have "\<dots> = Min (insert (f a) (insert bv (f ` set as)))" by simp
  finally show ?case by (simp add: insert_commute)
qed

lemma best_max_fst_raise:
  assumes "bv \<le> b"
  shows "fst (best_max f as b bm) = max b (fst (best_max f as bv bm'))"
proof -
  let ?S = "f ` set as"
  have "b \<le> Max (insert b ?S)" by (rule Max_ge) simp_all
  with assms have "bv \<le> Max (insert b ?S)" by (rule order_trans)
  then have A: "max bv (Max (insert b ?S)) = Max (insert b ?S)" by (rule max_absorb2)
  have B: "Max (insert bv (insert b ?S)) = max bv (Max (insert b ?S))"
    by (rule Max_insert) simp_all
  have C: "Max (insert b (insert bv ?S)) = max b (Max (insert bv ?S))"
    by (rule Max_insert) simp_all
  have "fst (best_max f as b bm) = Max (insert b ?S)" by (rule best_max_fst_Max)
  also have "\<dots> = Max (insert bv (insert b ?S))" by (simp only: A B)
  also have "\<dots> = Max (insert b (insert bv ?S))"
    by (rule arg_cong[where f = Max]) (rule insert_commute)
  also have "\<dots> = max b (Max (insert bv ?S))" by (rule C)
  also have "\<dots> = max b (fst (best_max f as bv bm'))" by (simp only: best_max_fst_Max)
  finally show ?thesis .
qed

lemma best_min_fst_lower:
  assumes "b \<le> bv"
  shows "fst (best_min f as b bm) = min b (fst (best_min f as bv bm'))"
proof -
  let ?S = "f ` set as"
  have "Min (insert b ?S) \<le> b" by (rule Min_le) simp_all
  from this assms have "Min (insert b ?S) \<le> bv" by (rule order_trans)
  then have A: "min bv (Min (insert b ?S)) = Min (insert b ?S)" by (rule min_absorb2)
  have B: "Min (insert bv (insert b ?S)) = min bv (Min (insert b ?S))"
    by (rule Min_insert) simp_all
  have C: "Min (insert b (insert bv ?S)) = min b (Min (insert bv ?S))"
    by (rule Min_insert) simp_all
  have "fst (best_min f as b bm) = Min (insert b ?S)" by (rule best_min_fst_Min)
  also have "\<dots> = Min (insert bv (insert b ?S))" by (simp only: A B)
  also have "\<dots> = Min (insert b (insert bv ?S))"
    by (rule arg_cong[where f = Min]) (rule insert_commute)
  also have "\<dots> = min b (Min (insert bv ?S))" by (rule C)
  also have "\<dots> = min b (fst (best_min f as bv bm'))" by (simp only: best_min_fst_Min)
  finally show ?thesis .
qed

lemma ab_best_max_fail_soft:
  assumes "\<forall>a \<in> set as. \<forall>al be. al < be \<longrightarrow> fail_soft al be (f a) (g a al be)"
    and "alpha < beta" and "bv \<le> alpha"
  shows "fail_soft alpha beta (fst (best_max f as bv bm')) (fst (ab_best_max g as bv bm alpha beta))
         \<and> bv \<le> fst (ab_best_max g as bv bm alpha beta)"
  using assms
proof (induction as arbitrary: bv bm alpha)
  case Nil
  then show ?case by (simp add: fail_soft_def)
next
  case (Cons a as)
  let ?c = "f a" and ?c' = "g a alpha beta"
  let ?bv = "if ?c' > bv then ?c' else bv"
  let ?bm = "if ?c' > bv then Some a else bm"
  let ?R = "fst (best_max f as bv bm')"
  have X: "fst (best_max f (a # as) bv bm') = max ?c ?R" by (rule best_max_fst_Cons)
  from Cons.prems have fs: "fail_soft alpha beta ?c ?c'" by simp
  from Cons.prems(1) have rest: "\<forall>a \<in> set as. \<forall>al be. al < be \<longrightarrow> fail_soft al be (f a) (g a al be)"
    by simp
  have Rbv: "bv \<le> ?R" using best_max_bounds[of f as bv bm'] by (metis prod.collapse)
  show ?case
  proof (cases "beta \<le> max alpha ?bv")
    case True
    then have y: "ab_best_max g (a # as) bv bm alpha beta = (?bv, ?bm)" by (simp add: Let_def)
    from True Cons.prems(2,3) have c': "?c' > bv" "beta \<le> ?c'"
      by (auto simp: max_def split: if_splits)
    with fs have "?c' \<le> ?c" by (simp add: fail_soft_def)
    with c' Cons.prems(2) show ?thesis
      unfolding y X by (auto simp: fail_soft_def max_def)
  next
    case False
    then have y: "ab_best_max g (a # as) bv bm alpha beta
                   = ab_best_max g as ?bv ?bm (max alpha ?bv) beta" by (simp add: Let_def)
    from False have lt: "max alpha ?bv < beta" by (simp only: not_le)
    have "?bv \<le> max alpha ?bv" by simp
    from Cons.IH[OF rest lt this, of ?bm]
    have ih: "fail_soft (max alpha ?bv) beta (fst (best_max f as ?bv bm'))
                (fst (ab_best_max g as ?bv ?bm (max alpha ?bv) beta))"
      and ge: "?bv \<le> fst (ab_best_max g as ?bv ?bm (max alpha ?bv) beta)"
      by auto
    have "bv \<le> ?bv" by auto
    from best_max_fst_raise[OF this, of f as bm' bm']
    have X1: "fst (best_max f as ?bv bm') = max ?bv ?R" .
    show ?thesis
      unfolding y X
      by (rule fail_soft_max_step[OF fs Cons.prems(2,3) Rbv lt ih[unfolded X1] ge])
  qed
qed

lemma ab_best_min_fail_soft:
  assumes "\<forall>a \<in> set as. \<forall>al be. al < be \<longrightarrow> fail_soft al be (f a) (g a al be)"
    and "alpha < beta" and "beta \<le> bv"
  shows "fail_soft alpha beta (fst (best_min f as bv bm')) (fst (ab_best_min g as bv bm alpha beta))
         \<and> fst (ab_best_min g as bv bm alpha beta) \<le> bv"
  using assms
proof (induction as arbitrary: bv bm beta)
  case Nil
  then show ?case by (simp add: fail_soft_def)
next
  case (Cons a as)
  let ?c = "f a" and ?c' = "g a alpha beta"
  let ?bv = "if ?c' < bv then ?c' else bv"
  let ?bm = "if ?c' < bv then Some a else bm"
  let ?R = "fst (best_min f as bv bm')"
  have X: "fst (best_min f (a # as) bv bm') = min ?c ?R" by (rule best_min_fst_Cons)
  from Cons.prems have fs: "fail_soft alpha beta ?c ?c'" by simp
  from Cons.prems(1) have rest: "\<forall>a \<in> set as. \<forall>al be. al < be \<longrightarrow> fail_soft al be (f a) (g a al be)"
    by simp
  have Rbv: "?R \<le> bv" using best_min_bounds[of f as bv bm'] by (metis prod.collapse)
  show ?case
  proof (cases "min beta ?bv \<le> alpha")
    case True
    then have y: "ab_best_min g (a # as) bv bm alpha beta = (?bv, ?bm)" by (simp add: Let_def)
    from True Cons.prems(2,3) have c': "?c' < bv" "?c' \<le> alpha"
      by (auto simp: min_def split: if_splits)
    with fs have "?c \<le> ?c'" by (simp add: fail_soft_def)
    with c' Cons.prems(2) show ?thesis
      unfolding y X by (auto simp: fail_soft_def min_def)
  next
    case False
    then have y: "ab_best_min g (a # as) bv bm alpha beta
                   = ab_best_min g as ?bv ?bm alpha (min beta ?bv)" by (simp add: Let_def)
    from False have lt: "alpha < min beta ?bv" by (simp only: not_le)
    have "min beta ?bv \<le> ?bv" by simp
    from Cons.IH[OF rest lt this, of ?bm]
    have ih: "fail_soft alpha (min beta ?bv) (fst (best_min f as ?bv bm'))
                (fst (ab_best_min g as ?bv ?bm alpha (min beta ?bv)))"
      and ge: "fst (ab_best_min g as ?bv ?bm alpha (min beta ?bv)) \<le> ?bv"
      by auto
    have "?bv \<le> bv" by auto
    from best_min_fst_lower[OF this, of f as bm' bm']
    have X1: "fst (best_min f as ?bv bm') = min ?bv ?R" .
    show ?thesis
      unfolding y X
      by (rule fail_soft_min_step[OF fs Cons.prems(2,3) Rbv lt ih[unfolded X1] ge])
  qed
qed


lemma ab_value_fail_soft:
  assumes "well_shaped s" "alpha < beta"
  shows "fail_soft alpha beta (minimax_value s) (ab_value s alpha beta uo)"
  using assms
proof (induction "empties s" arbitrary: s alpha beta rule: less_induct)
  case less
  let ?f = "\<lambda>a. minimax_value (child s a)"
  let ?g = "\<lambda>a al be. ab_value (child s a) al be uo"
  let ?as = "legal_moves s uo"
  note ws = less.prems(1)
  have ch: "\<forall>a \<in> set ?as. \<forall>al be. al < be \<longrightarrow> fail_soft al be (?f a) (?g a al be)"
  proof (intro ballI allI impI)
    fix a al be assume "a \<in> set ?as" and lt: "al < (be :: val)"
    then have "a \<in> set (actions s)" using legal_moves(3)[OF ws] by simp
    from minimax_children[OF ws this] obtain s' where
      s': "result s a = Inr s'" "empties s' < empties s" "child s a = s'" "well_shaped s'" by auto
    from less.hyps[OF s'(2) s'(4) lt] s'(3)
    show "fail_soft al be (?f a) (?g a al be)" by simp
  qed
  have seteq: "set ?as = set (sort (actions s))" using legal_moves(3)[OF ws] by simp
  show ?case
  proof (cases "terminal s")
    case True
    then show ?thesis
      by (simp add: ab_value_def[of s alpha beta uo] minimax_value_def[of s]
          minimax_ab_unfold[OF ws] minimax_unfold[OF ws] fail_soft_def)
  next
    case False
    show ?thesis
    proof (cases "player s = PlayerX")
      case True
      have "minimax s = Inr (best_max ?f (sort (actions s)) MInf None)"
        using False True by (simp add: minimax_unfold[OF ws])
      then have "minimax_value s = fst (best_max ?f (sort (actions s)) MInf None)"
        by (simp add: minimax_value_def[of s] split: prod.splits)
      also have "\<dots> = Max (insert MInf (?f ` set (sort (actions s))))" by (rule best_max_fst_Max)
      also have "\<dots> = Max (insert MInf (?f ` set ?as))" by (simp only: seteq)
      also have "\<dots> = fst (best_max ?f ?as MInf None)" by (rule best_max_fst_Max[symmetric])
      finally have x: "minimax_value s = fst (best_max ?f ?as MInf None)" .
      have "minimax_ab s alpha beta uo = Inr (ab_best_max ?g ?as MInf None alpha beta)"
        using False True by (simp add: minimax_ab_unfold[OF ws])
      then have y: "ab_value s alpha beta uo = fst (ab_best_max ?g ?as MInf None alpha beta)"
        by (simp add: ab_value_def[of s alpha beta uo] split: prod.splits)
      from ab_best_max_fail_soft[OF ch less.prems(2), of MInf None None]
      show ?thesis unfolding x y by simp
    next
      case po: False
      have "minimax s = Inr (best_min ?f (sort (actions s)) PInf None)"
        using False po by (simp add: minimax_unfold[OF ws])
      then have "minimax_value s = fst (best_min ?f (sort (actions s)) PInf None)"
        by (simp add: minimax_value_def[of s] split: prod.splits)
      also have "\<dots> = Min (insert PInf (?f ` set (sort (actions s))))" by (rule best_min_fst_Min)
      also have "\<dots> = Min (insert PInf (?f ` set ?as))" by (simp only: seteq)
      also have "\<dots> = fst (best_min ?f ?as PInf None)" by (rule best_min_fst_Min[symmetric])
      finally have x: "minimax_value s = fst (best_min ?f ?as PInf None)" .
      have "minimax_ab s alpha beta uo = Inr (ab_best_min ?g ?as PInf None alpha beta)"
        using False po by (simp add: minimax_ab_unfold[OF ws])
      then have y: "ab_value s alpha beta uo = fst (ab_best_min ?g ?as PInf None alpha beta)"
        by (simp add: ab_value_def[of s alpha beta uo] split: prod.splits)
      from ab_best_min_fail_soft[OF ch less.prems(2), of PInf None None]
      show ?thesis unfolding x y by simp
    qed
  qed
qed


lemma fail_soft_full: "fail_soft MInf PInf x y \<Longrightarrow> y = x"
  by (cases y) (auto simp: fail_soft_def)

lemma best_max_top: "best_max f as PInf bm = (PInf, bm)"
  by (induction as) auto

lemma best_min_bottom: "best_min f as MInf bm = (MInf, bm)"
  by (induction as) auto

lemma ab_best_max_root:
  assumes "\<forall>a \<in> set as. \<forall>al be. al < be \<longrightarrow> fail_soft al be (f a) (g a al be)"
    and "bv < PInf"
  shows "ab_best_max g as bv bm bv PInf = best_max f as bv bm"
  using assms
proof (induction as arbitrary: bv bm)
  case Nil
  then show ?case by simp
next
  case (Cons a as)
  let ?c = "f a" and ?c' = "g a bv PInf"
  from Cons.prems have fs: "fail_soft bv PInf ?c ?c'" by simp
  from Cons.prems(1) have rest: "\<forall>a \<in> set as. \<forall>al be. al < be \<longrightarrow> fail_soft al be (f a) (g a al be)"
    by simp
  have "?c' \<le> bv \<or> (bv < ?c' \<and> ?c' < PInf) \<or> ?c' = PInf"
    by (cases ?c') (auto simp: not_le)
  then consider (low) "?c' \<le> bv" | (mid) "bv < ?c'" "?c' < PInf" | (top) "?c' = PInf"
    by blast
  then show ?case
  proof cases
    case low
    with fs have "?c \<le> bv" by (auto simp: fail_soft_def)
    then have n2: "\<not> bv < ?c" by (simp add: not_less)
    from low have n1: "\<not> bv < ?c'" by (simp add: not_less)
    from Cons.prems(2) have n3: "bv \<noteq> PInf" by auto
    show ?thesis using Cons.IH[OF rest Cons.prems(2), of bm] by (simp add: Let_def n1 n2 n3)
  next
    case mid
    with fs have cc: "?c' = ?c" by (simp add: fail_soft_def)
    from mid have "max bv ?c' = ?c'" by (simp add: max_absorb2 less_imp_le)
    moreover from mid have "?c' \<noteq> PInf" by auto
    ultimately show ?thesis using mid Cons.IH[OF rest mid(2), of "Some a"]
      by (simp add: Let_def cc[symmetric])
  next
    case top
    with fs have cc: "?c = PInf" by (simp add: fail_soft_def)
    with top Cons.prems(2) show ?thesis by (simp add: Let_def best_max_top)
  qed
qed

lemma ab_best_min_root:
  assumes "\<forall>a \<in> set as. \<forall>al be. al < be \<longrightarrow> fail_soft al be (f a) (g a al be)"
    and "MInf < bv"
  shows "ab_best_min g as bv bm MInf bv = best_min f as bv bm"
  using assms
proof (induction as arbitrary: bv bm)
  case Nil
  then show ?case by simp
next
  case (Cons a as)
  let ?c = "f a" and ?c' = "g a MInf bv"
  from Cons.prems have fs: "fail_soft MInf bv ?c ?c'" by simp
  from Cons.prems(1) have rest: "\<forall>a \<in> set as. \<forall>al be. al < be \<longrightarrow> fail_soft al be (f a) (g a al be)"
    by simp
  have "bv \<le> ?c' \<or> (?c' < bv \<and> MInf < ?c') \<or> ?c' = MInf"
    by (cases ?c') (auto simp: not_le)
  then consider (high) "bv \<le> ?c'" | (mid) "?c' < bv" "MInf < ?c'" | (bot) "?c' = MInf"
    by blast
  then show ?case
  proof cases
    case high
    with fs have "bv \<le> ?c" by (auto simp: fail_soft_def)
    then have n2: "\<not> ?c < bv" by (simp add: not_less)
    from high have n1: "\<not> ?c' < bv" by (simp add: not_less)
    from Cons.prems(2) have n3: "bv \<noteq> MInf" by auto
    show ?thesis using Cons.IH[OF rest Cons.prems(2), of bm] by (simp add: Let_def n1 n2 n3)
  next
    case mid
    with fs have cc: "?c' = ?c" by (simp add: fail_soft_def)
    from mid have "min bv ?c' = ?c'" by (simp add: min_absorb2 less_imp_le)
    moreover from mid have "?c' \<noteq> MInf" by auto
    ultimately show ?thesis using mid Cons.IH[OF rest mid(2), of "Some a"]
      by (simp add: Let_def cc[symmetric])
  next
    case bot
    with fs have cc: "?c = MInf" by (simp add: fail_soft_def)
    with bot Cons.prems(2) show ?thesis by (simp add: Let_def best_min_bottom)
  qed
qed

lemma minimax_ab_unordered_eq:
  assumes "well_shaped s"
  shows "minimax_ab s MInf PInf False = minimax s"
proof -
  let ?f = "\<lambda>a. minimax_value (child s a)"
  let ?g = "\<lambda>a al be. ab_value (child s a) al be False"
  have ch: "\<forall>a \<in> set (sort (actions s)). \<forall>al be. al < be \<longrightarrow> fail_soft al be (?f a) (?g a al be)"
  proof (intro ballI allI impI)
    fix a al be assume "a \<in> set (sort (actions s))" and lt: "al < (be :: val)"
    then have "a \<in> set (actions s)" by simp
    from minimax_children[OF assms this] obtain s' where
      s': "child s a = s'" "well_shaped s'" by auto
    from ab_value_fail_soft[OF s'(2) lt] s'(1)
    show "fail_soft al be (?f a) (?g a al be)" by simp
  qed
  show ?thesis
    using ab_best_max_root[OF ch, of MInf None] ab_best_min_root[OF ch, of PInf None]
    by (simp add: minimax_ab_unfold[OF assms] minimax_unfold[OF assms] legal_moves(4)[OF assms])
qed

lemma minimax_ab_root:
  assumes "well_shaped s"
  shows "minimax_ab s MInf PInf uo =
     (if terminal s then
        Inr (Fin (of_int (case winner s of Some PlayerX \<Rightarrow> 1 | Some PlayerO \<Rightarrow> - 1 | None \<Rightarrow> 0)), None)
      else if player s = PlayerX
        then Inr (best_max (\<lambda>a. minimax_value (child s a)) (legal_moves s uo) MInf None)
        else Inr (best_min (\<lambda>a. minimax_value (child s a)) (legal_moves s uo) PInf None))"
proof -
  let ?f = "\<lambda>a. minimax_value (child s a)"
  let ?g = "\<lambda>a al be. ab_value (child s a) al be uo"
  have ch: "\<forall>a \<in> set (legal_moves s uo). \<forall>al be. al < be \<longrightarrow> fail_soft al be (?f a) (?g a al be)"
  proof (intro ballI allI impI)
    fix a al be assume "a \<in> set (legal_moves s uo)" and lt: "al < (be :: val)"
    then have "a \<in> set (actions s)" using legal_moves(3)[OF assms] by simp
    from minimax_children[OF assms this] obtain s' where
      s': "child s a = s'" "well_shaped s'" by auto
    from ab_value_fail_soft[OF s'(2) lt] s'(1)
    show "fail_soft al be (?f a) (?g a al be)" by simp
  qed
  show ?thesis
    using ab_best_max_root[OF ch, of MInf None] ab_best_min_root[OF ch, of PInf None]
    by (simp add: minimax_ab_unfold[OF assms])
qed

lemma best_max_move_cases:
  assumes "best_max f as MInf None = (v, mv)"
  shows "(mv = None \<longleftrightarrow> (\<forall>a \<in> set as. f a = MInf))
         \<and> (\<forall>a. mv = Some a \<longrightarrow> a \<in> set as \<and> f a = v)"
proof (cases "\<exists>a \<in> set as. MInf < f a")
  case True
  with best_max_move[OF assms] obtain pre a post where
    *: "as = pre @ a # post" "mv = Some a" "f a = v" by auto
  from True obtain b where b: "b \<in> set as" "MInf < f b" by blast
  then have "f b \<noteq> MInf" by auto
  with b(1) have "\<not> (\<forall>a \<in> set as. f a = MInf)" by blast
  with * show ?thesis by auto
next
  case False
  with best_max_move[OF assms] have "mv = None" by auto
  moreover from False have "\<forall>a \<in> set as. f a = MInf"
    by (metis val.exhaust val_less_simps(1) val_less_simps(3))
  ultimately show ?thesis by simp
qed

lemma best_min_move_cases:
  assumes "best_min f as PInf None = (v, mv)"
  shows "(mv = None \<longleftrightarrow> (\<forall>a \<in> set as. f a = PInf))
         \<and> (\<forall>a. mv = Some a \<longrightarrow> a \<in> set as \<and> f a = v)"
proof (cases "\<exists>a \<in> set as. f a < PInf")
  case True
  with best_min_move[OF assms] obtain pre a post where
    *: "as = pre @ a # post" "mv = Some a" "f a = v" by auto
  from True obtain b where b: "b \<in> set as" "f b < PInf" by blast
  then have "f b \<noteq> PInf" by auto
  with b(1) have "\<not> (\<forall>a \<in> set as. f a = PInf)" by blast
  with * show ?thesis by auto
next
  case False
  with best_min_move[OF assms] have "mv = None" by auto
  moreover from False have "\<forall>a \<in> set as. f a = PInf"
    by (metis val.exhaust val_less_simps(2) val_less_simps(3))
  ultimately show ?thesis by simp
qed

text \<open>
  Claim C1. On every state with a well-shaped board, \<open>minimax\<close> returns a result, and
  \<open>minimax_ab\<close> with the default bounds returns the same value in both ordering modes.
  Without ordering it returns the same move as well (the whole result is equal). With the
  heuristic ordering the move can differ from the one of \<open>minimax\<close> only among moves of equal
  value: it is absent exactly when the move of \<open>minimax\<close> is absent, and when present it is a
  legal move whose successor has the minimax value of the state.
\<close>

theorem minimax_ab_equals_minimax:
  assumes "well_shaped s"
  shows "\<exists>v mv mv'. minimax s = Inr (v, mv) \<and> minimax_ab s MInf PInf False = Inr (v, mv)
           \<and> minimax_ab s MInf PInf True = Inr (v, mv')
           \<and> (mv' = None \<longleftrightarrow> mv = None)
           \<and> (\<forall>a. mv' = Some a \<longrightarrow>
                  a \<in> set (actions s)
                  \<and> (\<exists>s' u. result s a = Inr s' \<and> minimax s' = Inr (v, u)))"
proof -
  let ?f = "\<lambda>a. minimax_value (child s a)"
  from minimax_total[OF assms] obtain v mv where mm: "minimax s = Inr (v, mv)" by auto
  then have v: "minimax_value s = v" by (simp add: minimax_value_def)
  from minimax_ab_total[OF assms, of MInf PInf True] obtain v' mv'
    where ab: "minimax_ab s MInf PInf True = Inr (v', mv')" by auto
  then have "ab_value s MInf PInf True = v'" by (simp add: ab_value_def)
  with fail_soft_full[OF ab_value_fail_soft[OF assms, of MInf PInf True]] v have vv: "v' = v" by simp
  have un: "minimax_ab s MInf PInf False = Inr (v, mv)"
    using mm minimax_ab_unordered_eq[OF assms] by simp
  have seteq: "set (legal_moves s True) = set (sort (actions s))"
    using legal_moves(3)[OF assms, of True] by simp
  have child_val: "a \<in> set (actions s) \<and> (\<exists>s' u. result s a = Inr s' \<and> minimax s' = Inr (v, u))"
    if "a \<in> set (legal_moves s True)" "?f a = v" for a
  proof -
    from that(1) have a: "a \<in> set (actions s)" using legal_moves(3)[OF assms, of True] by simp
    from minimax_children[OF assms a] that(2) a show ?thesis by auto
  qed
  have "(mv' = None \<longleftrightarrow> mv = None)
        \<and> (\<forall>a. mv' = Some a \<longrightarrow> a \<in> set (legal_moves s True) \<and> ?f a = v)"
  proof (cases "terminal s")
    case True
    with mm ab show ?thesis by (simp add: minimax_unfold[OF assms] minimax_ab_root[OF assms])
  next
    case nt: False
    show ?thesis
    proof (cases "player s = PlayerX")
      case True
      from mm nt True have 1: "best_max ?f (sort (actions s)) MInf None = (v, mv)"
        by (simp add: minimax_unfold[OF assms])
      from ab nt True vv have 2: "best_max ?f (legal_moves s True) MInf None = (v, mv')"
        by (simp add: minimax_ab_root[OF assms])
      from best_max_move_cases[OF 1] best_max_move_cases[OF 2] seteq show ?thesis by simp
    next
      case False
      from mm nt False have 1: "best_min ?f (sort (actions s)) PInf None = (v, mv)"
        by (simp add: minimax_unfold[OF assms])
      from ab nt False vv have 2: "best_min ?f (legal_moves s True) PInf None = (v, mv')"
        by (simp add: minimax_ab_root[OF assms])
      from best_min_move_cases[OF 1] best_min_move_cases[OF 2] seteq show ?thesis by simp
    qed
  qed
  with child_val have "(mv' = None \<longleftrightarrow> mv = None)
        \<and> (\<forall>a. mv' = Some a \<longrightarrow> a \<in> set (actions s)
                  \<and> (\<exists>s' u. result s a = Inr s' \<and> minimax s' = Inr (v, u)))" by blast
  with mm un ab vv show ?thesis by blast
qed

theorem minimax_ab_equals_minimax_witness:
  "well_shaped (initial_state 2 2)
   \<and> (\<exists>v mv mv'. minimax (initial_state 2 2) = Inr (v, mv)
         \<and> minimax_ab (initial_state 2 2) MInf PInf False = Inr (v, mv)
         \<and> minimax_ab (initial_state 2 2) MInf PInf True = Inr (v, mv')
         \<and> (mv' = None \<longleftrightarrow> mv = None)
         \<and> (\<forall>a. mv' = Some a \<longrightarrow>
                a \<in> set (actions (initial_state 2 2))
                \<and> (\<exists>s' u. result (initial_state 2 2) a = Inr s' \<and> minimax s' = Inr (v, u))))"
proof -
  have w: "well_shaped (initial_state 2 2)" by code_simp
  show ?thesis using minimax_ab_equals_minimax[OF w] w by simp
qed


section \<open>Instrumented searches (performance\_tests.py)\<close>

text \<open>
  The benchmark's copies of \<open>minimax\<close> and \<open>minimax_ab\<close>, which count every call in the
  \<open>SearchMetrics\<close> object they are given (the model threads it through the calls). The
  number of states a search visits is \<open>nodes_explored\<close> after a run that starts from fresh
  metrics.
\<close>

record metrics =
  nodes_explored :: int
  pruning_cutoffs :: int
  max_depth :: int

definition SearchMetrics :: metrics where
  "SearchMetrics = \<lparr>nodes_explored = 0, pruning_cutoffs = 0, max_depth = 0\<rparr>"

function minimax_instrumented ::
    "state \<Rightarrow> int \<Rightarrow> metrics \<Rightarrow> error + ((val \<times> move option) \<times> metrics)"
  and minimax_instrumented_max ::
    "state \<Rightarrow> move list \<Rightarrow> int \<Rightarrow> val \<Rightarrow> move option \<Rightarrow> metrics
      \<Rightarrow> error + ((val \<times> move option) \<times> metrics)"
  and minimax_instrumented_min ::
    "state \<Rightarrow> move list \<Rightarrow> int \<Rightarrow> val \<Rightarrow> move option \<Rightarrow> metrics
      \<Rightarrow> error + ((val \<times> move option) \<times> metrics)"
where
  "minimax_instrumented s depth mt =
     (let mt1 = mt\<lparr>nodes_explored := nodes_explored mt + 1,
                    max_depth := max (max_depth mt) depth\<rparr> in
      if terminal s then
        (case utility s of Some u \<Rightarrow> Inr ((Fin (of_int u), None), mt1) | None \<Rightarrow> Inl TypeError)
      else if player s = PlayerX
        then minimax_instrumented_max s (sort (actions s)) depth MInf None mt1
        else minimax_instrumented_min s (sort (actions s)) depth PInf None mt1)"
| "minimax_instrumented_max s [] depth best_value best_move mt = Inr ((best_value, best_move), mt)"
| "minimax_instrumented_max s (action # rest) depth best_value best_move mt =
     (case result s action of
        Inl e \<Rightarrow> Inl e
      | Inr new_state \<Rightarrow>
          (case minimax_instrumented new_state (depth + 1) mt of
             Inl e \<Rightarrow> Inl e
           | Inr ((v, u), mt') \<Rightarrow>
               if v > best_value then minimax_instrumented_max s rest depth v (Some action) mt'
               else minimax_instrumented_max s rest depth best_value best_move mt'))"
| "minimax_instrumented_min s [] depth best_value best_move mt = Inr ((best_value, best_move), mt)"
| "minimax_instrumented_min s (action # rest) depth best_value best_move mt =
     (case result s action of
        Inl e \<Rightarrow> Inl e
      | Inr new_state \<Rightarrow>
          (case minimax_instrumented new_state (depth + 1) mt of
             Inl e \<Rightarrow> Inl e
           | Inr ((v, u), mt') \<Rightarrow>
               if v < best_value then minimax_instrumented_min s rest depth v (Some action) mt'
               else minimax_instrumented_min s rest depth best_value best_move mt'))"
  by pat_completeness auto
termination
  by (relation "measures [
        (\<lambda>x. case x of Inl (s, _) \<Rightarrow> empties s
                  | Inr (Inl (s, _)) \<Rightarrow> empties s | Inr (Inr (s, _)) \<Rightarrow> empties s),
        (\<lambda>x. case x of Inl _ \<Rightarrow> 1 | Inr _ \<Rightarrow> 0),
        (\<lambda>x. case x of Inl _ \<Rightarrow> 0
                  | Inr (Inl (_, ms, _)) \<Rightarrow> length ms | Inr (Inr (_, ms, _)) \<Rightarrow> length ms)]")
     (auto dest: result_empties)

function minimax_ab_instrumented ::
    "state \<Rightarrow> val \<Rightarrow> val \<Rightarrow> int \<Rightarrow> metrics \<Rightarrow> bool
      \<Rightarrow> error + ((val \<times> move option) \<times> metrics)"
  and minimax_ab_instrumented_max ::
    "state \<Rightarrow> move list \<Rightarrow> val \<Rightarrow> move option \<Rightarrow> val \<Rightarrow> val \<Rightarrow> int \<Rightarrow> metrics \<Rightarrow> bool
      \<Rightarrow> error + ((val \<times> move option) \<times> metrics)"
  and minimax_ab_instrumented_min ::
    "state \<Rightarrow> move list \<Rightarrow> val \<Rightarrow> move option \<Rightarrow> val \<Rightarrow> val \<Rightarrow> int \<Rightarrow> metrics \<Rightarrow> bool
      \<Rightarrow> error + ((val \<times> move option) \<times> metrics)"
where
  "minimax_ab_instrumented s alpha beta depth mt use_ordering =
     (let mt1 = mt\<lparr>nodes_explored := nodes_explored mt + 1,
                    max_depth := max (max_depth mt) depth\<rparr> in
      if terminal s then
        (case utility s of Some u \<Rightarrow> Inr ((Fin (of_int u), None), mt1) | None \<Rightarrow> Inl TypeError)
      else
        (case (if use_ordering then order_moves s (actions s) use_ordering
               else Inr (sort (actions s))) of
           Inl e \<Rightarrow> Inl e
         | Inr lm \<Rightarrow>
             if player s = PlayerX
             then minimax_ab_instrumented_max s lm MInf None alpha beta depth mt1
                    use_ordering
             else minimax_ab_instrumented_min s lm PInf None alpha beta depth mt1
                    use_ordering))"
| "minimax_ab_instrumented_max s [] best_value best_move alpha beta depth mt use_ordering =
     Inr ((best_value, best_move), mt)"
| "minimax_ab_instrumented_max s (action # rest) best_value best_move alpha beta depth mt
       use_ordering =
     (case result s action of
        Inl e \<Rightarrow> Inl e
      | Inr new_state \<Rightarrow>
          (case minimax_ab_instrumented new_state alpha beta (depth + 1) mt use_ordering of
             Inl e \<Rightarrow> Inl e
           | Inr ((v, u), mt') \<Rightarrow>
               let best_value' = (if v > best_value then v else best_value);
                   best_move' = (if v > best_value then Some action else best_move);
                   alpha' = max alpha best_value'
               in if beta \<le> alpha'
                  then Inr ((best_value', best_move'),
                            mt'\<lparr>pruning_cutoffs := pruning_cutoffs mt' + 1\<rparr>)
                  else minimax_ab_instrumented_max s rest best_value' best_move' alpha' beta
                         depth mt' use_ordering))"
| "minimax_ab_instrumented_min s [] best_value best_move alpha beta depth mt use_ordering =
     Inr ((best_value, best_move), mt)"
| "minimax_ab_instrumented_min s (action # rest) best_value best_move alpha beta depth mt
       use_ordering =
     (case result s action of
        Inl e \<Rightarrow> Inl e
      | Inr new_state \<Rightarrow>
          (case minimax_ab_instrumented new_state alpha beta (depth + 1) mt use_ordering of
             Inl e \<Rightarrow> Inl e
           | Inr ((v, u), mt') \<Rightarrow>
               let best_value' = (if v < best_value then v else best_value);
                   best_move' = (if v < best_value then Some action else best_move);
                   beta' = min beta best_value'
               in if beta' \<le> alpha
                  then Inr ((best_value', best_move'),
                            mt'\<lparr>pruning_cutoffs := pruning_cutoffs mt' + 1\<rparr>)
                  else minimax_ab_instrumented_min s rest best_value' best_move' alpha beta'
                         depth mt' use_ordering))"
  by pat_completeness auto
termination
  by (relation "measures [
        (\<lambda>x. case x of Inl (s, _) \<Rightarrow> empties s
                  | Inr (Inl (s, _)) \<Rightarrow> empties s | Inr (Inr (s, _)) \<Rightarrow> empties s),
        (\<lambda>x. case x of Inl _ \<Rightarrow> 1 | Inr _ \<Rightarrow> 0),
        (\<lambda>x. case x of Inl _ \<Rightarrow> 0
                  | Inr (Inl (_, ms, _)) \<Rightarrow> length ms | Inr (Inr (_, ms, _)) \<Rightarrow> length ms)]")
     (auto dest: result_empties)

text \<open>A position after five moves of a 3 by 3 game, O to move, four cells empty.\<close>

definition ordering_worse :: state where
  "ordering_worse =
     \<lparr>board = [[Some PlayerX, None, Some PlayerX],
               [None, None, Some PlayerO],
               [Some PlayerO, Some PlayerX, None]], m = 3, k = 3, moves = 5\<rparr>"

text \<open>Its four successors, named by the move of O.\<close>

definition ow_01 :: state where
  "ow_01 = \<lparr>board = [[Some PlayerX, Some PlayerO, Some PlayerX],
                      [None, None, Some PlayerO],
                      [Some PlayerO, Some PlayerX, None]], m = 3, k = 3, moves = 6\<rparr>"

definition ow_10 :: state where
  "ow_10 = \<lparr>board = [[Some PlayerX, None, Some PlayerX],
                      [Some PlayerO, None, Some PlayerO],
                      [Some PlayerO, Some PlayerX, None]], m = 3, k = 3, moves = 6\<rparr>"

definition ow_11 :: state where
  "ow_11 = \<lparr>board = [[Some PlayerX, None, Some PlayerX],
                      [None, Some PlayerO, Some PlayerO],
                      [Some PlayerO, Some PlayerX, None]], m = 3, k = 3, moves = 6\<rparr>"

definition ow_22 :: state where
  "ow_22 = \<lparr>board = [[Some PlayerX, None, Some PlayerX],
                      [None, None, Some PlayerO],
                      [Some PlayerO, Some PlayerX, Some PlayerO]], m = 3, k = 3, moves = 6\<rparr>"

declare minimax_instrumented.simps(1) [simp del]
declare minimax_ab_instrumented.simps(1) [simp del]


lemma minimax_instrumented_max_nodes:
  assumes "\<forall>a \<in> set as. \<exists>s'. result s a = Inr s' \<and>
             (\<forall>d mt. \<exists>r mt'. minimax_instrumented s' d mt = Inr (r, mt')
                        \<and> nodes_explored mt' = nodes_explored mt + n a)"
  shows "\<exists>r mt'. minimax_instrumented_max s as d bv bm mt = Inr (r, mt')
           \<and> nodes_explored mt' = nodes_explored mt + sum_list (map n as)"
  using assms
proof (induction as arbitrary: bv bm mt)
  case Nil
  then show ?case by simp
next
  case (Cons a as)
  then obtain s' where s': "result s a = Inr s'"
    and c: "\<forall>d mt. \<exists>r mt'. minimax_instrumented s' d mt = Inr (r, mt')
                        \<and> nodes_explored mt' = nodes_explored mt + n a" by auto
  from c obtain v u mt1 where r: "minimax_instrumented s' (d + 1) mt = Inr ((v, u), mt1)"
    and n1: "nodes_explored mt1 = nodes_explored mt + n a" by fastforce
  from Cons.prems have rest: "\<forall>a \<in> set as. \<exists>s'. result s a = Inr s' \<and>
             (\<forall>d mt. \<exists>r mt'. minimax_instrumented s' d mt = Inr (r, mt')
                        \<and> nodes_explored mt' = nodes_explored mt + n a)" by simp
  from Cons.IH[OF rest, of v "Some a" mt1] Cons.IH[OF rest, of bv bm mt1]
  show ?case using s' r n1 by (auto simp: algebra_simps)
qed

lemma minimax_instrumented_min_nodes:
  assumes "\<forall>a \<in> set as. \<exists>s'. result s a = Inr s' \<and>
             (\<forall>d mt. \<exists>r mt'. minimax_instrumented s' d mt = Inr (r, mt')
                        \<and> nodes_explored mt' = nodes_explored mt + n a)"
  shows "\<exists>r mt'. minimax_instrumented_min s as d bv bm mt = Inr (r, mt')
           \<and> nodes_explored mt' = nodes_explored mt + sum_list (map n as)"
  using assms
proof (induction as arbitrary: bv bm mt)
  case Nil
  then show ?case by simp
next
  case (Cons a as)
  then obtain s' where s': "result s a = Inr s'"
    and c: "\<forall>d mt. \<exists>r mt'. minimax_instrumented s' d mt = Inr (r, mt')
                        \<and> nodes_explored mt' = nodes_explored mt + n a" by auto
  from c obtain v u mt1 where r: "minimax_instrumented s' (d + 1) mt = Inr ((v, u), mt1)"
    and n1: "nodes_explored mt1 = nodes_explored mt + n a" by fastforce
  from Cons.prems have rest: "\<forall>a \<in> set as. \<exists>s'. result s a = Inr s' \<and>
             (\<forall>d mt. \<exists>r mt'. minimax_instrumented s' d mt = Inr (r, mt')
                        \<and> nodes_explored mt' = nodes_explored mt + n a)" by simp
  from Cons.IH[OF rest, of v "Some a" mt1] Cons.IH[OF rest, of bv bm mt1]
  show ?case using s' r n1 by (auto simp: algebra_simps)
qed

lemma minimax_ab_instrumented_max_nodes:
  assumes "\<forall>a \<in> set as. 0 \<le> n a \<and> (\<exists>s'. result s a = Inr s' \<and>
             (\<forall>al be d mt. \<exists>r mt'. minimax_ab_instrumented s' al be d mt uo = Inr (r, mt')
                 \<and> nodes_explored mt \<le> nodes_explored mt'
                 \<and> nodes_explored mt' \<le> nodes_explored mt + n a))"
  shows "\<exists>r mt'. minimax_ab_instrumented_max s as bv bm alpha beta d mt uo = Inr (r, mt')
           \<and> nodes_explored mt \<le> nodes_explored mt'
           \<and> nodes_explored mt' \<le> nodes_explored mt + sum_list (map n as)"
  using assms
proof (induction as arbitrary: bv bm alpha mt)
  case Nil
  then show ?case by simp
next
  case (Cons a as)
  then obtain s' where s': "result s a = Inr s'" and na: "0 \<le> n a"
    and c: "\<forall>al be d mt. \<exists>r mt'. minimax_ab_instrumented s' al be d mt uo = Inr (r, mt')
                 \<and> nodes_explored mt \<le> nodes_explored mt'
                 \<and> nodes_explored mt' \<le> nodes_explored mt + n a" by auto
  from c obtain v u mt1 where
    r: "minimax_ab_instrumented s' alpha beta (d + 1) mt uo = Inr ((v, u), mt1)"
    and n1: "nodes_explored mt \<le> nodes_explored mt1"
      "nodes_explored mt1 \<le> nodes_explored mt + n a" by fastforce
  from Cons.prems have rest: "\<forall>a \<in> set as. 0 \<le> n a \<and> (\<exists>s'. result s a = Inr s' \<and>
             (\<forall>al be d mt. \<exists>r mt'. minimax_ab_instrumented s' al be d mt uo = Inr (r, mt')
                 \<and> nodes_explored mt \<le> nodes_explored mt'
                 \<and> nodes_explored mt' \<le> nodes_explored mt + n a))" by simp
  then have "\<forall>a \<in> set as. 0 \<le> n a" by simp
  then have pos: "0 \<le> sum_list (map n as)" by (intro sum_list_nonneg) auto
  let ?bv = "if v > bv then v else bv"
  let ?bm = "if v > bv then Some a else bm"
  from Cons.IH[OF rest, of ?bv ?bm "max alpha ?bv" mt1]
  show ?case using s' r n1 pos by (auto simp: Let_def)
qed

lemma minimax_ab_instrumented_min_nodes:
  assumes "\<forall>a \<in> set as. 0 \<le> n a \<and> (\<exists>s'. result s a = Inr s' \<and>
             (\<forall>al be d mt. \<exists>r mt'. minimax_ab_instrumented s' al be d mt uo = Inr (r, mt')
                 \<and> nodes_explored mt \<le> nodes_explored mt'
                 \<and> nodes_explored mt' \<le> nodes_explored mt + n a))"
  shows "\<exists>r mt'. minimax_ab_instrumented_min s as bv bm alpha beta d mt uo = Inr (r, mt')
           \<and> nodes_explored mt \<le> nodes_explored mt'
           \<and> nodes_explored mt' \<le> nodes_explored mt + sum_list (map n as)"
  using assms
proof (induction as arbitrary: bv bm beta mt)
  case Nil
  then show ?case by simp
next
  case (Cons a as)
  then obtain s' where s': "result s a = Inr s'" and na: "0 \<le> n a"
    and c: "\<forall>al be d mt. \<exists>r mt'. minimax_ab_instrumented s' al be d mt uo = Inr (r, mt')
                 \<and> nodes_explored mt \<le> nodes_explored mt'
                 \<and> nodes_explored mt' \<le> nodes_explored mt + n a" by auto
  from c obtain v u mt1 where
    r: "minimax_ab_instrumented s' alpha beta (d + 1) mt uo = Inr ((v, u), mt1)"
    and n1: "nodes_explored mt \<le> nodes_explored mt1"
      "nodes_explored mt1 \<le> nodes_explored mt + n a" by fastforce
  from Cons.prems have rest: "\<forall>a \<in> set as. 0 \<le> n a \<and> (\<exists>s'. result s a = Inr s' \<and>
             (\<forall>al be d mt. \<exists>r mt'. minimax_ab_instrumented s' al be d mt uo = Inr (r, mt')
                 \<and> nodes_explored mt \<le> nodes_explored mt'
                 \<and> nodes_explored mt' \<le> nodes_explored mt + n a))" by simp
  then have "\<forall>a \<in> set as. 0 \<le> n a" by simp
  then have pos: "0 \<le> sum_list (map n as)" by (intro sum_list_nonneg) auto
  let ?bv = "if v < bv then v else bv"
  let ?bm = "if v < bv then Some a else bm"
  from Cons.IH[OF rest, of ?bv ?bm "min beta ?bv" mt1]
  show ?case using s' r n1 pos by (auto simp: Let_def)
qed


lemma nodes_bound:
  assumes "well_shaped s"
  shows "\<exists>n\<ge>1. (\<forall>d mt. \<exists>r mt'. minimax_instrumented s d mt = Inr (r, mt')
                       \<and> nodes_explored mt' = nodes_explored mt + n)
           \<and> (\<forall>al be d mt. \<exists>r mt'. minimax_ab_instrumented s al be d mt uo = Inr (r, mt')
                       \<and> nodes_explored mt \<le> nodes_explored mt'
                       \<and> nodes_explored mt' \<le> nodes_explored mt + n)"
  using assms
proof (induction "empties s" arbitrary: s rule: less_induct)
  case less
  note ws = less.prems
  define P where "P = (\<lambda>s' n. \<forall>d mt. \<exists>r mt'. minimax_instrumented s' d mt = Inr (r, mt')
                       \<and> nodes_explored mt' = nodes_explored mt + n)"
  define Q where "Q = (\<lambda>s' n. \<forall>al be d mt. \<exists>r mt'.
                       minimax_ab_instrumented s' al be d mt uo = Inr (r, mt')
                       \<and> nodes_explored mt \<le> nodes_explored mt'
                       \<and> nodes_explored mt' \<le> nodes_explored mt + n)"
  have "\<forall>a \<in> set (actions s). \<exists>n. 1 \<le> n \<and> (\<exists>s'. result s a = Inr s' \<and> P s' n \<and> Q s' n)"
  proof
    fix a assume "a \<in> set (actions s)"
    from actions_result[OF ws this] obtain s' where s': "result s a = Inr s'" by auto
    from less.hyps[OF result_empties[OF s'] result_well_shaped[OF ws s']]
    obtain n where "1 \<le> n" "P s' n" "Q s' n" unfolding P_def Q_def by blast
    with s' show "\<exists>n. 1 \<le> n \<and> (\<exists>s'. result s a = Inr s' \<and> P s' n \<and> Q s' n)" by blast
  qed
  from bchoice[OF this] obtain n where
    n: "\<forall>a \<in> set (actions s). 1 \<le> n a \<and> (\<exists>s'. result s a = Inr s' \<and> P s' (n a) \<and> Q s' (n a))"
    by blast
  let ?L = "sort (actions s)"
  let ?M = "legal_moves s uo"
  have mmch: "\<forall>a \<in> set ?L. \<exists>s'. result s a = Inr s' \<and>
             (\<forall>d mt. \<exists>r mt'. minimax_instrumented s' d mt = Inr (r, mt')
                        \<and> nodes_explored mt' = nodes_explored mt + n a)"
  proof
    fix a assume "a \<in> set ?L"
    then have "a \<in> set (actions s)" by simp
    with n obtain s' where "result s a = Inr s'" "P s' (n a)" by blast
    then show "\<exists>s'. result s a = Inr s' \<and>
             (\<forall>d mt. \<exists>r mt'. minimax_instrumented s' d mt = Inr (r, mt')
                        \<and> nodes_explored mt' = nodes_explored mt + n a)"
      unfolding P_def by blast
  qed
  have abch: "\<forall>a \<in> set ?M. 0 \<le> n a \<and> (\<exists>s'. result s a = Inr s' \<and>
             (\<forall>al be d mt. \<exists>r mt'. minimax_ab_instrumented s' al be d mt uo = Inr (r, mt')
                 \<and> nodes_explored mt \<le> nodes_explored mt'
                 \<and> nodes_explored mt' \<le> nodes_explored mt + n a))"
  proof
    fix a assume "a \<in> set ?M"
    then have "a \<in> set (actions s)" using legal_moves(3)[OF ws, of uo] by simp
    with n obtain s' where "1 \<le> n a" "result s a = Inr s'" "Q s' (n a)" by blast
    then have "0 \<le> n a" "\<exists>s'. result s a = Inr s' \<and>
             (\<forall>al be d mt. \<exists>r mt'. minimax_ab_instrumented s' al be d mt uo = Inr (r, mt')
                 \<and> nodes_explored mt \<le> nodes_explored mt'
                 \<and> nodes_explored mt' \<le> nodes_explored mt + n a)"
      unfolding Q_def by auto
    then show "0 \<le> n a \<and> (\<exists>s'. result s a = Inr s' \<and>
             (\<forall>al be d mt. \<exists>r mt'. minimax_ab_instrumented s' al be d mt uo = Inr (r, mt')
                 \<and> nodes_explored mt \<le> nodes_explored mt'
                 \<and> nodes_explored mt' \<le> nodes_explored mt + n a))" by (rule conjI)
  qed
  have "mset ?M = mset ?L" using legal_moves(2)[OF ws, of uo] by simp
  then have "mset (map n ?M) = mset (map n ?L)" by (metis mset_map)
  then have sumeq: "sum_list (map n ?M) = sum_list (map n ?L)" by (metis sum_mset_sum_list)
  have "\<forall>x \<in> set ?L. 0 \<le> n x" using n by fastforce
  then have pos: "0 \<le> sum_list (map n ?L)" by (intro sum_list_nonneg) auto
  have lm: "(if uo then order_moves s (actions s) uo else Inr (sort (actions s))) = Inr ?M"
    using legal_moves(1)[OF ws, of uo] by (cases uo) simp_all
  show ?case
  proof (cases "terminal s")
    case True
    have 1: "\<forall>d mt. \<exists>r mt'. minimax_instrumented s d mt = Inr (r, mt')
                       \<and> nodes_explored mt' = nodes_explored mt + 1"
      by (simp add: True minimax_instrumented.simps(1)[of s] utility_terminal Let_def)
    have 2: "\<forall>al be d mt. \<exists>r mt'. minimax_ab_instrumented s al be d mt uo = Inr (r, mt')
                       \<and> nodes_explored mt \<le> nodes_explored mt'
                       \<and> nodes_explored mt' \<le> nodes_explored mt + 1"
      by (simp add: True minimax_ab_instrumented.simps(1)[of s] utility_terminal Let_def)
    from 1 2 show ?thesis by (intro exI[of _ 1]) simp
  next
    case False
    have 1: "\<exists>r mt'. minimax_instrumented s d mt = Inr (r, mt')
              \<and> nodes_explored mt' = nodes_explored mt + (1 + sum_list (map n ?L))" for d mt
    proof -
      let ?mt1 = "mt\<lparr>nodes_explored := nodes_explored mt + 1, max_depth := max (max_depth mt) d\<rparr>"
      have e: "minimax_instrumented s d mt =
          (if player s = PlayerX then minimax_instrumented_max s ?L d MInf None ?mt1
           else minimax_instrumented_min s ?L d PInf None ?mt1)"
        using False by (simp add: minimax_instrumented.simps(1)[of s] Let_def)
      from minimax_instrumented_max_nodes[OF mmch, of d MInf None ?mt1]
        minimax_instrumented_min_nodes[OF mmch, of d PInf None ?mt1]
      show ?thesis unfolding e by (cases "player s = PlayerX") (simp_all add: algebra_simps)
    qed
    have 2: "\<exists>r mt'. minimax_ab_instrumented s al be d mt uo = Inr (r, mt')
              \<and> nodes_explored mt \<le> nodes_explored mt'
              \<and> nodes_explored mt' \<le> nodes_explored mt + (1 + sum_list (map n ?L))" for al be d mt
    proof -
      let ?mt1 = "mt\<lparr>nodes_explored := nodes_explored mt + 1, max_depth := max (max_depth mt) d\<rparr>"
      have e: "minimax_ab_instrumented s al be d mt uo =
          (if player s = PlayerX then minimax_ab_instrumented_max s ?M MInf None al be d ?mt1 uo
           else minimax_ab_instrumented_min s ?M PInf None al be d ?mt1 uo)"
        using False unfolding minimax_ab_instrumented.simps(1)[of s] lm by (simp add: Let_def)
      from minimax_ab_instrumented_max_nodes[OF abch, of MInf None al be d ?mt1]
        minimax_ab_instrumented_min_nodes[OF abch, of PInf None al be d ?mt1]
      show ?thesis unfolding e sumeq by (cases "player s = PlayerX") (auto simp: algebra_simps)
    qed
    from 1 2 pos show ?thesis by (intro exI[of _ "1 + sum_list (map n ?L)"]) simp
  qed
qed

subsection \<open>Node counts\<close>

text \<open>The searches of the four successors of \<open>ordering_worse\<close>, as the root's loop calls
  them in each ordering mode, evaluated one by one.\<close>

lemma ow_results:
  "result ordering_worse (0, 1) = Inr ow_01" "result ordering_worse (1, 0) = Inr ow_10"
  "result ordering_worse (1, 1) = Inr ow_11" "result ordering_worse (2, 2) = Inr ow_22"
  by code_simp+

lemma ow_root:
  "\<not> terminal ordering_worse" "player ordering_worse = PlayerO"
  "sort (actions ordering_worse) = [(0, 1), (1, 0), (1, 1), (2, 2)]"
  by code_simp+

lemma ow_order:
  "order_moves ordering_worse (actions ordering_worse) True = Inr [(1, 1), (0, 1), (1, 0), (2, 2)]"
  by code_simp

lemma ow_ordered_11: "minimax_ab_instrumented ow_11 MInf PInf 1
     \<lparr>nodes_explored = 1, pruning_cutoffs = 0, max_depth = 0\<rparr> True
   = Inr ((Fin 1, Some (0, 1)), \<lparr>nodes_explored = 8, pruning_cutoffs = 2, max_depth = 4\<rparr>)"
  by code_simp

lemma ow_ordered_01: "minimax_ab_instrumented ow_01 MInf (Fin 1) 1
     \<lparr>nodes_explored = 8, pruning_cutoffs = 2, max_depth = 4\<rparr> True
   = Inr ((Fin 0, Some (1, 1)), \<lparr>nodes_explored = 20, pruning_cutoffs = 5, max_depth = 4\<rparr>)"
  by code_simp

lemma ow_ordered_10: "minimax_ab_instrumented ow_10 MInf (Fin 0) 1
     \<lparr>nodes_explored = 20, pruning_cutoffs = 5, max_depth = 4\<rparr> True
   = Inr ((Fin 1, Some (0, 1)), \<lparr>nodes_explored = 22, pruning_cutoffs = 6, max_depth = 4\<rparr>)"
  by code_simp

lemma ow_ordered_22: "minimax_ab_instrumented ow_22 MInf (Fin 0) 1
     \<lparr>nodes_explored = 22, pruning_cutoffs = 6, max_depth = 4\<rparr> True
   = Inr ((Fin 1, Some (0, 1)), \<lparr>nodes_explored = 24, pruning_cutoffs = 7, max_depth = 4\<rparr>)"
  by code_simp

lemma ow_plain_01: "minimax_ab_instrumented ow_01 MInf PInf 1
     \<lparr>nodes_explored = 1, pruning_cutoffs = 0, max_depth = 0\<rparr> False
   = Inr ((Fin 0, Some (1, 0)), \<lparr>nodes_explored = 17, pruning_cutoffs = 3, max_depth = 4\<rparr>)"
  by code_simp

lemma ow_plain_10: "minimax_ab_instrumented ow_10 MInf (Fin 0) 1
     \<lparr>nodes_explored = 17, pruning_cutoffs = 3, max_depth = 4\<rparr> False
   = Inr ((Fin 1, Some (0, 1)), \<lparr>nodes_explored = 19, pruning_cutoffs = 4, max_depth = 4\<rparr>)"
  by code_simp

lemma ow_plain_11: "minimax_ab_instrumented ow_11 MInf (Fin 0) 1
     \<lparr>nodes_explored = 19, pruning_cutoffs = 4, max_depth = 4\<rparr> False
   = Inr ((Fin 1, Some (0, 1)), \<lparr>nodes_explored = 21, pruning_cutoffs = 5, max_depth = 4\<rparr>)"
  by code_simp

lemma ow_plain_22: "minimax_ab_instrumented ow_22 MInf (Fin 0) 1
     \<lparr>nodes_explored = 21, pruning_cutoffs = 5, max_depth = 4\<rparr> False
   = Inr ((Fin 1, Some (0, 1)), \<lparr>nodes_explored = 23, pruning_cutoffs = 6, max_depth = 4\<rparr>)"
  by code_simp

text \<open>
  Claim C4, as stated, fails in its second half: heuristic ordering is not a monotonic
  improvement. On \<open>ordering_worse\<close> the heuristic order tries the centre \<open>(1, 1)\<close> first,
  which loses for O, and alpha-beta then visits 24 states with ordering against 23
  without.
\<close>

theorem ordering_explores_more:
  "minimax_ab_instrumented ordering_worse MInf PInf 0 SearchMetrics True
     = Inr ((Fin 0, Some (0, 1)),
            \<lparr>nodes_explored = 24, pruning_cutoffs = 7, max_depth = 4\<rparr>)
   \<and> minimax_ab_instrumented ordering_worse MInf PInf 0 SearchMetrics False
     = Inr ((Fin 0, Some (0, 1)),
            \<lparr>nodes_explored = 23, pruning_cutoffs = 6, max_depth = 4\<rparr>)"
  by (simp add: minimax_ab_instrumented.simps(1)[of ordering_worse] ow_root ow_order ow_results
      SearchMetrics_def Let_def ow_ordered_11 ow_ordered_01 ow_ordered_10 ow_ordered_22
      ow_plain_01 ow_plain_10 ow_plain_11 ow_plain_22 min_def)

text \<open>
  Claim C4, amended. On every state with a well-shaped board, and in either ordering
  mode, alpha-beta minimax started from fresh metrics visits at most as many states as
  plain minimax does. (Nothing is claimed between the two ordering modes.)
\<close>

theorem alpha_beta_explores_no_more_than_minimax:
  assumes "well_shaped s"
  shows "\<exists>r1 m1 r2 m2. minimax_instrumented s 0 SearchMetrics = Inr (r1, m1)
           \<and> minimax_ab_instrumented s MInf PInf 0 SearchMetrics use_ordering = Inr (r2, m2)
           \<and> nodes_explored m2 \<le> nodes_explored m1"
proof -
  from nodes_bound[OF assms, of use_ordering] obtain n where
    mm: "\<forall>d mt. \<exists>r mt'. minimax_instrumented s d mt = Inr (r, mt')
                       \<and> nodes_explored mt' = nodes_explored mt + n"
    and ab: "\<forall>al be d mt. \<exists>r mt'. minimax_ab_instrumented s al be d mt use_ordering = Inr (r, mt')
                       \<and> nodes_explored mt \<le> nodes_explored mt'
                       \<and> nodes_explored mt' \<le> nodes_explored mt + n" by blast
  from mm obtain r1 m1 where 1: "minimax_instrumented s 0 SearchMetrics = Inr (r1, m1)"
    "nodes_explored m1 = nodes_explored SearchMetrics + n" by blast
  from ab obtain r2 m2 where
    2: "minimax_ab_instrumented s MInf PInf 0 SearchMetrics use_ordering = Inr (r2, m2)"
    "nodes_explored m2 \<le> nodes_explored SearchMetrics + n" by blast
  from 1 2 show ?thesis by auto
qed

theorem alpha_beta_explores_no_more_than_minimax_witness:
  "well_shaped ordering_worse
   \<and> (\<exists>r1 m1 r2 m2. minimax_instrumented ordering_worse 0 SearchMetrics = Inr (r1, m1)
         \<and> minimax_ab_instrumented ordering_worse MInf PInf 0 SearchMetrics True = Inr (r2, m2)
         \<and> nodes_explored m2 \<le> nodes_explored m1)"
proof -
  have w: "well_shaped ordering_worse" by code_simp
  show ?thesis using alpha_beta_explores_no_more_than_minimax[OF w, of True] w by simp
qed


section \<open>The heuristic evaluator\<close>

text \<open>
  The evaluation in the words of the specification. A window is a run of \<open>k\<close> cells of the
  board, contiguous in one of the four directions: across a row, down a column, down a
  diagonal (row and column both growing) or down an anti-diagonal (row growing, column
  shrinking). It is named by its first cell and its direction, and every one of its cells
  lies on the board. A window with X marks and no O mark scores the square of its number
  of X marks, a window with O marks and no X mark scores minus the square of its number
  of O marks, any other window scores nothing. The centre bonus is one half when the
  cell \<open>(m div 2, m div 2)\<close> holds X, minus one half when it holds O.
\<close>

definition window_score :: "cell list \<Rightarrow> int" where
  "window_score w =
     (let x_count = int (count_list w (Some PlayerX));
          o_count = int (count_list w (Some PlayerO))
      in if x_count > 0 \<and> o_count = 0 then x_count\<^sup>2
         else if o_count > 0 \<and> x_count = 0 then - (o_count\<^sup>2)
         else 0)"

definition cell_at :: "state \<Rightarrow> int \<times> int \<Rightarrow> cell" where
  "cell_at s p = board s ! nat (fst p) ! nat (snd p)"

definition on_board :: "int \<Rightarrow> int \<times> int \<Rightarrow> bool" where
  "on_board mm p = (0 \<le> fst p \<and> fst p < mm \<and> 0 \<le> snd p \<and> snd p < mm)"

definition window_cells :: "int \<Rightarrow> int \<times> int \<Rightarrow> int \<times> int \<Rightarrow> (int \<times> int) list" where
  "window_cells kk dir start =
     [(fst start + int j * fst dir, snd start + int j * snd dir). j \<leftarrow> [0..<nat kk]]"

definition window_starts :: "int \<Rightarrow> int \<Rightarrow> int \<times> int \<Rightarrow> (int \<times> int) list" where
  "window_starts mm kk dir =
     [(r, c). r \<leftarrow> [0..mm - 1], c \<leftarrow> [0..mm - 1],
              list_all (on_board mm) (window_cells kk dir (r, c))]"

definition window_at :: "state \<Rightarrow> int \<times> int \<Rightarrow> int \<times> int \<Rightarrow> int" where
  "window_at s dir start = window_score (map (cell_at s) (window_cells (k s) dir start))"

definition direction_score :: "state \<Rightarrow> (int \<times> int \<Rightarrow> int) \<Rightarrow> int \<times> int \<Rightarrow> int" where
  "direction_score s weight dir =
     (\<Sum>start\<leftarrow>window_starts (m s) (k s) dir. weight start * window_at s dir start)"

definition center_bonus :: "state \<Rightarrow> rat" where
  "center_bonus s =
     (case cell_at s (m s div 2, m s div 2) of
        Some PlayerX \<Rightarrow> 1 / 2 | Some PlayerO \<Rightarrow> - (1 / 2) | None \<Rightarrow> 0)"

text \<open>The sum in which every window of the board counts once.\<close>

definition each_window_once :: "state \<Rightarrow> rat" where
  "each_window_once s =
     of_int (direction_score s (\<lambda>start. 1) (0, 1) + direction_score s (\<lambda>start. 1) (1, 0)
             + direction_score s (\<lambda>start. 1) (1, 1) + direction_score s (\<lambda>start. 1) (1, - 1))
     + center_bonus s"

text \<open>
  The diagonal segments that the evaluator scans start at every offset \<open>(start_r, start_c)\<close>
  with both coordinates at most \<open>m - k\<close> and run to the edge of the board; the
  anti-diagonal segments start at every offset with \<open>start_r\<close> at most \<open>m - k\<close> and
  \<open>start_c\<close> at least \<open>k - 1\<close>. Segments that start inside the board lie on the segment
  that starts at the edge, so a diagonal window with first cell \<open>(r, c)\<close> lies on
  \<open>min r c + 1\<close> segments and an anti-diagonal window on \<open>min r (m - 1 - c) + 1\<close> of them.
  In \<open>heuristic_score\<close> every window counts once for each segment that it lies on.
\<close>

definition segments_through :: "int \<Rightarrow> int \<times> int \<Rightarrow> int \<times> int \<Rightarrow> int" where
  "segments_through mm dir start =
     (if dir = (1, 1) then min (fst start) (snd start) + 1
      else if dir = (1, - 1) then min (fst start) (mm - 1 - snd start) + 1
      else 1)"

definition heuristic_score :: "state \<Rightarrow> rat" where
  "heuristic_score s =
     of_int (\<Sum>dir\<leftarrow>[(0, 1), (1, 0), (1, 1), (1, - 1)].
               direction_score s (segments_through (m s) dir) dir)
     + center_bonus s"

text \<open>Two positions: a 4 by 4 board with one X in the last corner (\<open>k = 3\<close>), and a state
  without a board.\<close>

definition diagonal_corner :: state where
  "diagonal_corner =
     \<lparr>board = [[None, None, None, None], [None, None, None, None],
               [None, None, None, None], [None, None, None, Some PlayerX]],
      m = 4, k = 3, moves = 1\<rparr>"

definition no_board :: state where
  "no_board = \<lparr>board = [], m = 0, k = 1, moves = 1\<rparr>"

text \<open>The windows of a line as the evaluator slices them, and the score of a list of
  lines.\<close>

definition windows :: "int \<Rightarrow> cell list \<Rightarrow> cell list list" where
  "windows kk line =
     [take (nat kk) (drop i line). i \<leftarrow> [0..<nat (int (length line) - kk + 1)]]"

definition family_score :: "int \<Rightarrow> cell list list \<Rightarrow> rat" where
  "family_score kk lines =
     of_int (sum_list (map (\<lambda>line. sum_list (map window_score (windows kk line))) lines))"

lemma py_slice_window:
  assumes "0 \<le> kk" "i < nat (int (length line) - kk + 1)"
  shows "py_slice line (int i) (int i + kk) = take (nat kk) (drop i line)"
proof -
  from assms have le: "int i + kk \<le> int (length line)" by linarith
  then have "min (int i + kk) (int (length line)) = int i + kk"
    "min (int i) (int (length line)) = int i" using assms(1) by auto
  with assms(1) show ?thesis by (simp add: py_slice_def Let_def)
qed

lemma fold_pair_difference:
  fixes g :: "'a \<Rightarrow> int \<times> int \<Rightarrow> int \<times> int"
  assumes "\<And>i x_score o_score.
     fst (g i (x_score, o_score)) - snd (g i (x_score, o_score)) = x_score - o_score + h i"
  shows "fst (fold g xs (xa, oa)) - snd (fold g xs (xa, oa)) = xa - oa + sum_list (map h xs)"
proof (induction xs arbitrary: xa oa)
  case Nil
  then show ?case by simp
next
  case (Cons i xs)
  obtain x1 o1 where g: "g i (xa, oa) = (x1, o1)" by force
  from assms[of i xa oa] g have "x1 - o1 = xa - oa + h i" by simp
  with Cons.IH[of x1 o1] g show ?case by simp
qed

lemma count_sequences_fold:
  "fst (count_sequences line kk) - snd (count_sequences line kk)
     = sum_list (map (\<lambda>i. window_score (py_slice line (int i) (int i + kk)))
         [0..<nat (int (length line) - kk + 1)])"
  unfolding count_sequences_def
  by (subst fold_pair_difference[where h = "\<lambda>i. window_score (py_slice line (int i) (int i + kk))"])
     (auto simp: Let_def window_score_def)

lemma count_sequences_score:
  assumes "0 \<le> kk" "count_sequences line kk = (x_s, o_s)"
  shows "x_s - o_s = sum_list (map window_score (windows kk line))"
proof -
  have "map (\<lambda>i. window_score (py_slice line (int i) (int i + kk)))
           [0..<nat (int (length line) - kk + 1)]
        = map window_score (windows kk line)"
    using py_slice_window[OF assms(1), of _ line] by (simp add: windows_def)
  with count_sequences_fold[of line kk] assms(2) show ?thesis by simp
qed

lemma evaluate_lines_fold:
  "fold (\<lambda>line score. case count_sequences line kk of (x_s, o_s) \<Rightarrow> score + of_int (x_s - o_s))
      lines (a :: rat)
   = a + of_int (sum_list (map (\<lambda>line. case count_sequences line kk of (x_s, o_s) \<Rightarrow> x_s - o_s) lines))"
  by (induction lines arbitrary: a) (auto split: prod.splits)

lemma evaluate_lines_family:
  assumes "0 \<le> kk"
  shows "evaluate_lines lines kk = family_score kk lines"
proof -
  have "(case count_sequences line kk of (x_s, o_s) \<Rightarrow> x_s - o_s)
          = sum_list (map window_score (windows kk line))" for line
    using count_sequences_score[OF assms, of line] by (cases "count_sequences line kk") simp
  then show ?thesis
    unfolding evaluate_lines_def evaluate_lines_fold family_score_def by simp
qed

lemma sum_nat_int: "(\<Sum>i\<in>{0..<n}. F (int i)) = (\<Sum>i\<in>{0..<int n}. (F i :: int))"
proof -
  have "sum F (int ` {0..<n}) = sum (F \<circ> int) {0..<n}" by (rule sum.reindex) simp
  then show ?thesis by (simp add: image_int_atLeastLessThan o_def)
qed

lemma sum_const_interval: "(\<Sum>i\<in>{0..n}. (a :: int)) = (if 0 \<le> n then (n + 1) * a else 0)"
  by simp

lemma diag_regroup:
  fixes A :: "int \<Rightarrow> int \<Rightarrow> int"
  shows "(\<Sum>sr\<in>{0..<D}. \<Sum>sc\<in>{0..<D}. \<Sum>i\<in>{0..<D - max sr sc}. A (sr + i) (sc + i))
       = (\<Sum>r\<in>{0..<D}. \<Sum>c\<in>{0..<D}. (min r c + 1) * A r c)"
proof -
  let ?T = "SIGMA sr:{0..<D}. SIGMA sc:{0..<D}. {0..<D - max sr sc}"
  let ?U = "SIGMA r:{0..<D}. SIGMA c:{0..<D}. {0..min r c}"
  have "(\<Sum>sr\<in>{0..<D}. \<Sum>sc\<in>{0..<D}. \<Sum>i\<in>{0..<D - max sr sc}. A (sr + i) (sc + i))
        = (\<Sum>(sr, sc, i)\<in>?T. A (sr + i) (sc + i))"
    by (simp add: sum.Sigma)
  also have "\<dots> = (\<Sum>(r, c, i)\<in>?U. A r c)"
    by (rule sum.reindex_bij_witness[where i = "\<lambda>(r, c, i). (r - i, c - i, i)"
          and j = "\<lambda>(sr, sc, i). (sr + i, sc + i, i)"]) auto
  also have "\<dots> = (\<Sum>r\<in>{0..<D}. \<Sum>c\<in>{0..<D}. \<Sum>i\<in>{0..min r c}. A r c)"
    by (subst sum.Sigma[symmetric], simp, simp, subst sum.Sigma[symmetric], simp_all)
  also have "\<dots> = (\<Sum>r\<in>{0..<D}. \<Sum>c\<in>{0..<D}. (min r c + 1) * A r c)"
    by (intro sum.cong refl) (simp add: sum_const_interval)
  finally show ?thesis .
qed

lemma anti_regroup:
  fixes A :: "int \<Rightarrow> int \<Rightarrow> int"
  shows "(\<Sum>sr\<in>{0..<mm - kk + 1}. \<Sum>sc\<in>{kk - 1..mm - 1}.
            \<Sum>i\<in>{0..<min (mm - sr) (sc + 1) - kk + 1}. A (sr + i) (sc - i))
       = (\<Sum>r\<in>{0..<mm - kk + 1}. \<Sum>c\<in>{kk - 1..mm - 1}. (min r (mm - 1 - c) + 1) * A r c)"
proof -
  let ?T = "SIGMA sr:{0..<mm - kk + 1}. SIGMA sc:{kk - 1..mm - 1}.
              {0..<min (mm - sr) (sc + 1) - kk + 1}"
  let ?U = "SIGMA r:{0..<mm - kk + 1}. SIGMA c:{kk - 1..mm - 1}. {0..min r (mm - 1 - c)}"
  have "(\<Sum>sr\<in>{0..<mm - kk + 1}. \<Sum>sc\<in>{kk - 1..mm - 1}.
            \<Sum>i\<in>{0..<min (mm - sr) (sc + 1) - kk + 1}. A (sr + i) (sc - i))
        = (\<Sum>(sr, sc, i)\<in>?T. A (sr + i) (sc - i))"
    by (simp add: sum.Sigma)
  also have "\<dots> = (\<Sum>(r, c, i)\<in>?U. A r c)"
    by (rule sum.reindex_bij_witness[where i = "\<lambda>(r, c, i). (r - i, c + i, i)"
          and j = "\<lambda>(sr, sc, i). (sr + i, sc - i, i)"]) auto
  also have "\<dots> = (\<Sum>r\<in>{0..<mm - kk + 1}. \<Sum>c\<in>{kk - 1..mm - 1}.
                      \<Sum>i\<in>{0..min r (mm - 1 - c)}. A r c)"
    by (subst sum.Sigma[symmetric], simp, simp, subst sum.Sigma[symmetric], simp_all)
  also have "\<dots> = (\<Sum>r\<in>{0..<mm - kk + 1}. \<Sum>c\<in>{kk - 1..mm - 1}. (min r (mm - 1 - c) + 1) * A r c)"
    by (intro sum.cong refl) (simp add: sum_const_interval)
  finally show ?thesis .
qed



lemma take_drop_nth: "i + n \<le> length xs \<Longrightarrow> take n (drop i xs) = map (\<lambda>j. xs ! (i + j)) [0..<n]"
  by (auto intro!: nth_equalityI)

lemma sum_list_guard:
  "sum_list (map g (concat (map (\<lambda>c. if P c then [h c] else []) ys)))
     = (\<Sum>c\<leftarrow>ys. if P c then g (h c) else (0::int))"
  by (induction ys) simp_all

lemma sum_list_comprehension:
  "sum_list (map g [(r, c). r \<leftarrow> xs, c \<leftarrow> ys, P r c])
     = (\<Sum>r\<leftarrow>xs. \<Sum>c\<leftarrow>ys. if P r c then g (r, c) else (0::int))"
  by (induction xs) (simp_all add: sum_list_guard)

lemma line_windows:
  assumes "0 \<le> kk"
  shows "sum_list (map window_score (windows kk (map f [0..<L])))
         = (\<Sum>i\<leftarrow>[0..<nat (int L - kk + 1)]. window_score (map (\<lambda>j. f (i + j)) [0..<nat kk]))"
proof -
  have tk: "take (nat kk) (drop i (map f [0..<L])) = map (\<lambda>j. f (i + j)) [0..<nat kk]"
    if "i < nat (int L - kk + 1)" for i
  proof -
    from that assms have le: "i + nat kk \<le> L" by linarith
    then have "take (nat kk) (drop i (map f [0..<L]))
                 = map (\<lambda>j. map f [0..<L] ! (i + j)) [0..<nat kk]"
      by (intro take_drop_nth) simp
    also have "\<dots> = map (\<lambda>j. f (i + j)) [0..<nat kk]"
      using le by (intro map_cong refl) simp
    finally show ?thesis .
  qed
  have "map (\<lambda>i. window_score (take (nat kk) (drop i (map f [0..<L])))) [0..<nat (int L - kk + 1)]
        = map (\<lambda>i. window_score (map (\<lambda>j. f (i + j)) [0..<nat kk])) [0..<nat (int L - kk + 1)]"
    by (rule map_cong) (simp_all add: tk)
  then show ?thesis by (simp only: windows_def map_map o_def length_map length_upt diff_zero)
qed

lemma sum_list_nat_int:
  "(\<Sum>i\<leftarrow>[0..<n]. F (int i)) = (\<Sum>i\<in>{0..<int n}. (F i :: int))"
  using sum_nat_int[of F n] by (simp add: interv_sum_list_conv_sum_set_nat)

lemma window_at_nat:
  "window_at s (dr, dc) (r, c)
     = window_score (map (\<lambda>j. board s ! nat (r + int j * dr) ! nat (c + int j * dc)) [0..<nat (k s)])"
  by (simp add: window_at_def window_cells_def cell_at_def o_def)

lemma rows_as_map:
  assumes "well_shaped s"
  shows "board s = map (\<lambda>r. map (\<lambda>c. board s ! r ! c) [0..<nat (m s)]) [0..<nat (m s)]"
proof (rule nth_equalityI)
  show "length (board s) = length (map (\<lambda>r. map (\<lambda>c. board s ! r ! c) [0..<nat (m s)]) [0..<nat (m s)])"
    using assms by (simp add: well_shaped_def)
next
  fix i assume i: "i < length (board s)"
  with assms have len: "length (board s ! i) = nat (m s)" and im: "i < nat (m s)"
    by (auto simp: well_shaped_def)
  have "board s ! i = map (\<lambda>c. board s ! i ! c) [0..<nat (m s)]"
    using len by (intro nth_equalityI) simp_all
  with im show "board s ! i = map (\<lambda>r. map (\<lambda>c. board s ! r ! c) [0..<nat (m s)]) [0..<nat (m s)] ! i"
    by simp
qed

lemma family_rows:
  assumes "well_shaped s" "0 \<le> k s"
  shows "family_score (k s) (board s)
         = of_int (\<Sum>r\<in>{0..<m s}. \<Sum>c\<in>{0..<m s - k s + 1}. window_at s (0, 1) (r, c))"
proof -
  let ?M = "nat (m s)"
  have "sum_list (map (\<lambda>line. sum_list (map window_score (windows (k s) line))) (board s))
        = (\<Sum>r\<leftarrow>[0..<?M]. sum_list (map window_score
              (windows (k s) (map (\<lambda>c. board s ! r ! c) [0..<?M]))))"
    by (subst rows_as_map[OF assms(1)]) (simp add: o_def)
  also have "\<dots> = (\<Sum>r\<leftarrow>[0..<?M]. \<Sum>i\<leftarrow>[0..<nat (int ?M - k s + 1)].
                        window_at s (0, 1) (int r, int i))"
    by (simp add: line_windows[OF assms(2)] window_at_nat nat_add_distrib)
  also have "\<dots> = (\<Sum>r\<leftarrow>[0..<?M]. \<Sum>c\<in>{0..<int (nat (int ?M - k s + 1))}.
                        window_at s (0, 1) (int r, c))"
    by (simp only: sum_list_nat_int[where F = "\<lambda>c. window_at s (0, 1) (int r, c)" for r])
  also have "\<dots> = (\<Sum>r\<in>{0..<int ?M}. \<Sum>c\<in>{0..<int (nat (int ?M - k s + 1))}. window_at s (0, 1) (r, c))"
    by (rule sum_list_nat_int)
  also have "\<dots> = (\<Sum>r\<in>{0..<m s}. \<Sum>c\<in>{0..<m s - k s + 1}. window_at s (0, 1) (r, c))"
    by (cases "0 \<le> m s") (auto intro!: sum.cong)
  finally show ?thesis by (simp add: family_score_def)
qed

lemma sum_list_comprehension2:
  "sum_list (map g [f r c. r \<leftarrow> xs, c \<leftarrow> ys]) = (\<Sum>r\<leftarrow>xs. \<Sum>c\<leftarrow>ys. (g (f r c) :: int))"
  by (induction xs) (simp_all add: o_def)

lemma family_columns:
  assumes "0 \<le> k s"
  shows "family_score (k s) (columns s)
         = of_int (\<Sum>c\<in>{0..<m s}. \<Sum>r\<in>{0..<m s - k s + 1}. window_at s (1, 0) (r, c))"
proof -
  let ?M = "nat (m s)"
  have "sum_list (map (\<lambda>line. sum_list (map window_score (windows (k s) line))) (columns s))
        = (\<Sum>c\<leftarrow>[0..<?M]. sum_list (map window_score
              (windows (k s) (map (\<lambda>r. board s ! r ! c) [0..<?M]))))"
    by (simp add: columns_def o_def)
  also have "\<dots> = (\<Sum>c\<leftarrow>[0..<?M]. \<Sum>i\<leftarrow>[0..<nat (int ?M - k s + 1)].
                        window_at s (1, 0) (int i, int c))"
    by (simp add: line_windows[OF assms] window_at_nat nat_add_distrib)
  also have "\<dots> = (\<Sum>c\<leftarrow>[0..<?M]. \<Sum>r\<in>{0..<int (nat (int ?M - k s + 1))}.
                        window_at s (1, 0) (r, int c))"
    by (simp only: sum_list_nat_int[where F = "\<lambda>r. window_at s (1, 0) (r, int c)" for c])
  also have "\<dots> = (\<Sum>c\<in>{0..<int ?M}. \<Sum>r\<in>{0..<int (nat (int ?M - k s + 1))}. window_at s (1, 0) (r, c))"
    by (rule sum_list_nat_int)
  also have "\<dots> = (\<Sum>c\<in>{0..<m s}. \<Sum>r\<in>{0..<m s - k s + 1}. window_at s (1, 0) (r, c))"
    by (cases "0 \<le> m s") (auto intro!: sum.cong)
  finally show ?thesis by (simp add: family_score_def)
qed

lemma family_diagonals:
  assumes "0 \<le> k s"
  shows "family_score (k s) (diagonals s)
         = of_int (\<Sum>r\<in>{0..<m s - k s + 1}. \<Sum>c\<in>{0..<m s - k s + 1}.
                     (min r c + 1) * window_at s (1, 1) (r, c))"
proof -
  let ?D = "nat (m s - k s + 1)"
  let ?n = "\<lambda>sr sc. nat (int (nat (m s - int (max sr sc))) - k s + 1)"
  let ?N = "\<lambda>sr sc. int (nat (int (nat (m s - max sr sc)) - k s + 1))"
  have nN: "int (?n sr sc) = ?N (int sr) (int sc)" for sr sc by (simp only: of_nat_max)
  have "sum_list (map (\<lambda>line. sum_list (map window_score (windows (k s) line))) (diagonals s))
        = (\<Sum>sr\<leftarrow>[0..<?D]. \<Sum>sc\<leftarrow>[0..<?D]. sum_list (map window_score
              (windows (k s) (map (\<lambda>i. board s ! (sr + i) ! (sc + i))
                 [0..<nat (m s - int (max sr sc))]))))"
    unfolding diagonals_def by (rule sum_list_comprehension2)
  also have "\<dots> = (\<Sum>sr\<leftarrow>[0..<?D]. \<Sum>sc\<leftarrow>[0..<?D].
                        \<Sum>i\<leftarrow>[0..<?n sr sc].
                        window_at s (1, 1) (int sr + int i, int sc + int i))"
    by (simp only: line_windows[OF assms]) (simp add: window_at_nat nat_add_distrib add.assoc)
  also have "\<dots> = (\<Sum>sr\<leftarrow>[0..<?D]. \<Sum>sc\<leftarrow>[0..<?D].
                        \<Sum>i\<in>{0..<?N (int sr) (int sc)}.
                        window_at s (1, 1) (int sr + i, int sc + i))"
    by (simp only: sum_list_nat_int[where F = "\<lambda>i. window_at s (1, 1) (int sr + i, int sc + i)" for sr sc] nN)
  also have "\<dots> = (\<Sum>sr\<leftarrow>[0..<?D]. \<Sum>sc\<in>{0..<int ?D}.
                        \<Sum>i\<in>{0..<?N (int sr) sc}. window_at s (1, 1) (int sr + i, sc + i))"
    by (simp only: sum_list_nat_int[where F = "\<lambda>sc. \<Sum>i\<in>{0..<?N (int sr) sc}.
          window_at s (1, 1) (int sr + i, sc + i)" for sr])
  also have "\<dots> = (\<Sum>sr\<in>{0..<int ?D}. \<Sum>sc\<in>{0..<int ?D}.
                        \<Sum>i\<in>{0..<?N sr sc}. window_at s (1, 1) (sr + i, sc + i))"
    by (rule sum_list_nat_int)
  also have "\<dots> = (\<Sum>sr\<in>{0..<m s - k s + 1}. \<Sum>sc\<in>{0..<m s - k s + 1}.
                        \<Sum>i\<in>{0..<m s - k s + 1 - max sr sc}. window_at s (1, 1) (sr + i, sc + i))"
    using assms by (intro sum.cong) auto
  also have "\<dots> = (\<Sum>r\<in>{0..<m s - k s + 1}. \<Sum>c\<in>{0..<m s - k s + 1}.
                     (min r c + 1) * window_at s (1, 1) (r, c))"
    by (rule diag_regroup[where A = "\<lambda>r c. window_at s (1, 1) (r, c)"])
  finally show ?thesis by (simp add: family_score_def)
qed

lemma family_anti_diagonals:
  assumes "0 \<le> k s"
  shows "family_score (k s) (anti_diagonals s)
         = of_int (\<Sum>r\<in>{0..<m s - k s + 1}. \<Sum>c\<in>{k s - 1..m s - 1}.
                     (min r (m s - 1 - c) + 1) * window_at s (1, - 1) (r, c))"
proof -
  let ?D = "nat (m s - k s + 1)"
  let ?n = "\<lambda>sr sc. nat (int (nat (min (m s - int sr) (sc + 1))) - k s + 1)"
  let ?N = "\<lambda>sr sc. int (nat (int (nat (min (m s - sr) (sc + 1))) - k s + 1))"
  have "sum_list (map (\<lambda>line. sum_list (map window_score (windows (k s) line))) (anti_diagonals s))
        = (\<Sum>sr\<leftarrow>[0..<?D]. \<Sum>sc\<leftarrow>[k s - 1..m s - 1]. sum_list (map window_score
              (windows (k s) (map (\<lambda>i. board s ! (sr + i) ! nat (sc - int i))
                 [0..<nat (min (m s - int sr) (sc + 1))]))))"
    unfolding anti_diagonals_def by (rule sum_list_comprehension2)
  also have "\<dots> = (\<Sum>sr\<leftarrow>[0..<?D]. \<Sum>sc\<leftarrow>[k s - 1..m s - 1].
                        \<Sum>i\<leftarrow>[0..<?n sr sc].
                        window_at s (1, - 1) (int sr + int i, sc - int i))"
    by (simp only: line_windows[OF assms])
       (simp add: window_at_nat nat_add_distrib add.assoc diff_diff_eq)
  also have "\<dots> = (\<Sum>sr\<leftarrow>[0..<?D]. \<Sum>sc\<leftarrow>[k s - 1..m s - 1].
                        \<Sum>i\<in>{0..<?N (int sr) sc}.
                        window_at s (1, - 1) (int sr + i, sc - i))"
    by (simp only: sum_list_nat_int[where F = "\<lambda>i. window_at s (1, - 1) (int sr + i, sc - i)" for sr sc])
  also have "\<dots> = (\<Sum>sr\<leftarrow>[0..<?D]. \<Sum>sc\<in>{k s - 1..m s - 1}.
                        \<Sum>i\<in>{0..<?N (int sr) sc}. window_at s (1, - 1) (int sr + i, sc - i))"
    by (simp add: interv_sum_list_conv_sum_set_int)
  also have "\<dots> = (\<Sum>sr\<in>{0..<int ?D}. \<Sum>sc\<in>{k s - 1..m s - 1}.
                        \<Sum>i\<in>{0..<?N sr sc}. window_at s (1, - 1) (sr + i, sc - i))"
    by (rule sum_list_nat_int)
  also have "\<dots> = (\<Sum>sr\<in>{0..<m s - k s + 1}. \<Sum>sc\<in>{k s - 1..m s - 1}.
                        \<Sum>i\<in>{0..<min (m s - sr) (sc + 1) - k s + 1}.
                        window_at s (1, - 1) (sr + i, sc - i))"
    using assms by (intro sum.cong) auto
  also have "\<dots> = (\<Sum>r\<in>{0..<m s - k s + 1}. \<Sum>c\<in>{k s - 1..m s - 1}.
                     (min r (m s - 1 - c) + 1) * window_at s (1, - 1) (r, c))"
    by (rule anti_regroup[where A = "\<lambda>r c. window_at s (1, - 1) (r, c)"])
  finally show ?thesis by (simp add: family_score_def)
qed

lemma window_fits:
  assumes "1 \<le> kk" "0 \<le> r" "r < mm" "0 \<le> c" "c < mm"
  shows "list_all (on_board mm) (window_cells kk (0, 1) (r, c)) \<longleftrightarrow> c + kk \<le> mm"
    and "list_all (on_board mm) (window_cells kk (1, 0) (r, c)) \<longleftrightarrow> r + kk \<le> mm"
    and "list_all (on_board mm) (window_cells kk (1, 1) (r, c)) \<longleftrightarrow> r + kk \<le> mm \<and> c + kk \<le> mm"
    and "list_all (on_board mm) (window_cells kk (1, - 1) (r, c)) \<longleftrightarrow> r + kk \<le> mm \<and> kk - 1 \<le> c"
proof -
  have last: "nat kk - 1 \<in> {0..<nat kk}" "int (nat kk - 1) = kk - 1" using assms(1) by auto
  have in_range: "int j \<le> kk - 1" if "j \<in> {0..<nat kk}" for j using that by auto
  show "list_all (on_board mm) (window_cells kk (0, 1) (r, c)) \<longleftrightarrow> c + kk \<le> mm"
    using assms last in_range
    by (auto simp: list_all_iff window_cells_def on_board_def dest!: bspec[where x = "nat kk - 1"])
  show "list_all (on_board mm) (window_cells kk (1, 0) (r, c)) \<longleftrightarrow> r + kk \<le> mm"
    using assms last in_range
    by (auto simp: list_all_iff window_cells_def on_board_def dest!: bspec[where x = "nat kk - 1"])
  show "list_all (on_board mm) (window_cells kk (1, 1) (r, c)) \<longleftrightarrow> r + kk \<le> mm \<and> c + kk \<le> mm"
    using assms last in_range
    by (auto simp: list_all_iff window_cells_def on_board_def dest!: bspec[where x = "nat kk - 1"])
  show "list_all (on_board mm) (window_cells kk (1, - 1) (r, c)) \<longleftrightarrow> r + kk \<le> mm \<and> kk - 1 \<le> c"
    using assms last in_range
    by (auto simp: list_all_iff window_cells_def on_board_def dest!: bspec[where x = "nat kk - 1"])
qed

lemma direction_score_sum:
  "direction_score s w dir
     = (\<Sum>r\<in>{0..m s - 1}. \<Sum>c\<in>{0..m s - 1}.
          if list_all (on_board (m s)) (window_cells (k s) dir (r, c))
          then w (r, c) * window_at s dir (r, c) else 0)"
  by (simp add: direction_score_def window_starts_def sum_list_comprehension
      interv_sum_list_conv_sum_set_int)

lemma sum_restrict2:
  fixes F :: "int \<Rightarrow> int \<Rightarrow> int"
  assumes "finite R" "finite C" "R' \<subseteq> R" "C' \<subseteq> C"
    and "\<And>r c. r \<in> R \<Longrightarrow> c \<in> C \<Longrightarrow> P r c \<longleftrightarrow> r \<in> R' \<and> c \<in> C'"
  shows "(\<Sum>r\<in>R. \<Sum>c\<in>C. if P r c then F r c else 0) = (\<Sum>r\<in>R'. \<Sum>c\<in>C'. F r c)"
proof -
  have "(\<Sum>r\<in>R. \<Sum>c\<in>C. if P r c then F r c else 0)
        = (\<Sum>r\<in>R. \<Sum>c\<in>C. if r \<in> R' \<and> c \<in> C' then F r c else 0)"
    using assms(5) by (intro sum.cong refl) simp
  also have "\<dots> = (\<Sum>r\<in>R. if r \<in> R' then \<Sum>c\<in>C'. F r c else 0)"
  proof (intro sum.cong refl)
    fix r
    have "C \<inter> C' = C'" using assms(4) by blast
    then have "(\<Sum>c\<in>C. if c \<in> C' then F r c else 0) = (\<Sum>c\<in>C'. F r c)"
      using sum.inter_restrict[OF assms(2), of "F r" C'] by simp
    then show "(\<Sum>c\<in>C. if r \<in> R' \<and> c \<in> C' then F r c else 0)
               = (if r \<in> R' then \<Sum>c\<in>C'. F r c else 0)"
      by simp
  qed
  also have "\<dots> = (\<Sum>r\<in>R'. \<Sum>c\<in>C'. F r c)"
  proof -
    have "R \<inter> R' = R'" using assms(3) by blast
    then show ?thesis using sum.inter_restrict[OF assms(1), of "\<lambda>r. \<Sum>c\<in>C'. F r c" R'] by simp
  qed
  finally show ?thesis .
qed

lemma direction_score_across:
  assumes "1 \<le> k s"
  shows "direction_score s w (0, 1)
         = (\<Sum>r\<in>{0..<m s}. \<Sum>c\<in>{0..<m s - k s + 1}. w (r, c) * window_at s (0, 1) (r, c))"
  unfolding direction_score_sum
  by (rule sum_restrict2) (use assms in \<open>auto simp: window_fits\<close>)

lemma direction_score_down:
  assumes "1 \<le> k s"
  shows "direction_score s w (1, 0)
         = (\<Sum>r\<in>{0..<m s - k s + 1}. \<Sum>c\<in>{0..<m s}. w (r, c) * window_at s (1, 0) (r, c))"
  unfolding direction_score_sum
  by (rule sum_restrict2) (use assms in \<open>auto simp: window_fits\<close>)

lemma direction_score_diagonal:
  assumes "1 \<le> k s"
  shows "direction_score s w (1, 1)
         = (\<Sum>r\<in>{0..<m s - k s + 1}. \<Sum>c\<in>{0..<m s - k s + 1}. w (r, c) * window_at s (1, 1) (r, c))"
  unfolding direction_score_sum
  by (rule sum_restrict2) (use assms in \<open>auto simp: window_fits\<close>)

lemma direction_score_anti_diagonal:
  assumes "1 \<le> k s"
  shows "direction_score s w (1, - 1)
         = (\<Sum>r\<in>{0..<m s - k s + 1}. \<Sum>c\<in>{k s - 1..m s - 1}. w (r, c) * window_at s (1, - 1) (r, c))"
  unfolding direction_score_sum
  by (rule sum_restrict2) (use assms in \<open>auto simp: window_fits\<close>)

lemma family_score_0: "family_score 0 lines = 0"
  by (simp add: family_score_def windows_def window_score_def o_def)

lemma direction_score_0: "k s = 0 \<Longrightarrow> direction_score s w dir = 0"
  by (simp add: direction_score_def window_at_def window_cells_def window_score_def)

lemma center_control_bonus_returns:
  assumes "well_shaped s" "1 \<le> m s"
  shows "center_control_bonus s = Inr (center_bonus s)"
proof -
  let ?c = "m s div 2"
  from assms(2) have c: "0 \<le> ?c" "?c < m s" by auto
  with assms(1) have i: "py_index (length (board s)) ?c = Some (nat ?c)"
    by (simp add: py_index_def well_shaped_def)
  from c assms(1) have "board s ! nat ?c \<in> set (board s)"
    by (simp add: well_shaped_def)
  with assms(1) have "length (board s ! nat ?c) = nat (m s)" by (simp add: well_shaped_def)
  with c have j: "py_index (length (board s ! nat ?c)) ?c = Some (nat ?c)"
    by (simp add: py_index_def)
  show ?thesis
    by (simp add: center_control_bonus_def center_bonus_def Let_def i j cell_at_def
        split: option.splits mark.splits)
qed

lemma center_control_bonus_raises:
  assumes "well_shaped s" "m s < 1"
  shows "center_control_bonus s = Inl IndexError"
  using assms by (simp add: center_control_bonus_def well_shaped_def py_index_def Let_def)

lemma evaluate_heuristic_score:
  assumes "well_shaped s" "\<not> terminal s" "0 \<le> k s" "1 \<le> m s"
  shows "evaluate s = heuristic_score s"
proof -
  have ev: "evaluate s = family_score (k s) (board s) + family_score (k s) (columns s)
              + family_score (k s) (diagonals s) + family_score (k s) (anti_diagonals s)
              + center_bonus s"
    using assms(2)
    by (simp add: evaluate_def evaluate_rows_def evaluate_columns_def evaluate_diagonals_def
        evaluate_anti_diagonals_def evaluate_lines_family[OF assms(3)]
        center_control_bonus_returns[OF assms(1,4)])
  have hs: "heuristic_score s
              = of_int (direction_score s (\<lambda>p. 1) (0, 1)) + of_int (direction_score s (\<lambda>p. 1) (1, 0))
                + of_int (direction_score s (\<lambda>p. min (fst p) (snd p) + 1) (1, 1))
                + of_int (direction_score s (\<lambda>p. min (fst p) (m s - 1 - snd p) + 1) (1, - 1))
                + center_bonus s"
    by (simp add: heuristic_score_def segments_through_def[abs_def])
  show ?thesis
  proof (cases "k s = 0")
    case True
    then show ?thesis unfolding ev hs by (simp add: family_score_0 direction_score_0)
  next
    case False
    with assms(3) have k1: "1 \<le> k s" by simp
    have "(\<Sum>c\<in>{0..<m s}. \<Sum>r\<in>{0..<m s - k s + 1}. window_at s (1, 0) (r, c))
          = (\<Sum>r\<in>{0..<m s - k s + 1}. \<Sum>c\<in>{0..<m s}. window_at s (1, 0) (r, c))"
      by (rule sum.swap)
    then show ?thesis
      unfolding ev hs
      by (simp add: family_rows[OF assms(1,3)] family_columns[OF assms(3)]
          family_diagonals[OF assms(3)] family_anti_diagonals[OF assms(3)]
          direction_score_across[OF k1] direction_score_down[OF k1]
          direction_score_diagonal[OF k1] direction_score_anti_diagonal[OF k1])
  qed
qed

text \<open>
  Claim C9, as stated, fails on non-terminal states: the evaluation is not the sum over
  the windows of the board. On the 4 by 4 board with \<open>k = 3\<close> and a single X at \<open>(3, 3)\<close>
  three windows hold the X, one in its row, one in its column and one on the main
  diagonal, so the sum is 3; \<open>evaluate\<close> returns 4, because the diagonal window lies on
  the segments that start at \<open>(0, 0)\<close> and at \<open>(1, 1)\<close> and is counted on both.
\<close>

theorem evaluate_counts_windows_per_segment:
  "well_shaped diagonal_corner \<and> \<not> terminal diagonal_corner
   \<and> evaluate diagonal_corner = 4 \<and> each_window_once diagonal_corner = 3"
  by code_simp

text \<open>
  Claim C9, amended. On every state with a well-shaped board: on a terminal state
  \<open>evaluate\<close> returns the utility, 1 when X has won, -1 when O has won, 0 for a draw. On a
  non-terminal state with \<open>m\<close> at least 1 and \<open>k\<close> at least 0 it returns the sum of the
  scores of the windows of the board in the four directions, every row and column
  window counted once, every diagonal window with first cell \<open>(r, c)\<close> counted
  \<open>min r c + 1\<close> times and every anti-diagonal window \<open>min r (m - 1 - c) + 1\<close> times, plus
  the centre bonus. On a non-terminal state with \<open>m\<close> below 1 the centre bonus raises
  \<open>IndexError\<close>.
\<close>

theorem evaluate_spec:
  assumes "well_shaped s"
  shows "(terminal s \<longrightarrow>
            evaluate s = of_int (case winner s of Some PlayerX \<Rightarrow> 1 | Some PlayerO \<Rightarrow> - 1 | None \<Rightarrow> 0)
            \<and> evaluate s \<in> {1, - 1, 0})
         \<and> (\<not> terminal s \<and> 0 \<le> k s \<and> 1 \<le> m s \<longrightarrow>
              center_control_bonus s = Inr (center_bonus s) \<and> evaluate s = heuristic_score s)
         \<and> (\<not> terminal s \<and> m s < 1 \<longrightarrow> center_control_bonus s = Inl IndexError)"
proof (intro conjI impI)
  assume "terminal s"
  then show "evaluate s = of_int (case winner s of Some PlayerX \<Rightarrow> 1 | Some PlayerO \<Rightarrow> - 1 | None \<Rightarrow> 0)"
    by (simp add: evaluate_def utility_terminal)
  then show "evaluate s \<in> {1, - 1, 0}" by (simp split: option.splits mark.splits)
next
  assume "\<not> terminal s \<and> 0 \<le> k s \<and> 1 \<le> m s"
  then show "center_control_bonus s = Inr (center_bonus s)" "evaluate s = heuristic_score s"
    using center_control_bonus_returns[OF assms] evaluate_heuristic_score[OF assms] by simp_all
next
  assume "\<not> terminal s \<and> m s < 1"
  then show "center_control_bonus s = Inl IndexError"
    using center_control_bonus_raises[OF assms] by simp
qed

theorem evaluate_spec_witness:
  "well_shaped x_row_win \<and> terminal x_row_win \<and> evaluate x_row_win = 1
   \<and> well_shaped diagonal_corner \<and> \<not> terminal diagonal_corner
   \<and> 0 \<le> k diagonal_corner \<and> 1 \<le> m diagonal_corner
   \<and> center_control_bonus diagonal_corner = Inr (center_bonus diagonal_corner)
   \<and> evaluate diagonal_corner = heuristic_score diagonal_corner
   \<and> heuristic_score diagonal_corner = 4
   \<and> well_shaped no_board \<and> \<not> terminal no_board \<and> m no_board < 1
   \<and> center_control_bonus no_board = Inl IndexError"
proof -
  have w1: "well_shaped x_row_win" and t: "terminal x_row_win"
    and w: "winner x_row_win = Some PlayerX"
    and w2: "well_shaped diagonal_corner" and n: "\<not> terminal diagonal_corner"
    and k0: "0 \<le> k diagonal_corner" and m1: "1 \<le> m diagonal_corner"
    and h: "heuristic_score diagonal_corner = 4"
    and w3: "well_shaped no_board" and n3: "\<not> terminal no_board" and m3: "m no_board < 1"
    by code_simp+
  show ?thesis
    using evaluate_spec[OF w1] evaluate_spec[OF w2] evaluate_spec[OF w3]
      w1 t w w2 n k0 m1 h w3 n3 m3 by simp
qed


end
